theory Spec2Isabelle
  imports Complex_Main "HOL-Library.Sublist"
begin

section \<open>Strings of the server\<close>

text \<open>
  The server (\<^verbatim>\<open>packages/webapi/server.js\<close>) works on JavaScript strings. A string is
  modelled as a \<^typ>\<open>string\<close>, one \<^typ>\<open>char\<close> per code unit, which covers the code
  units \<open>0x00\<close> to \<open>0xFF\<close>; \<open>length\<close> is JavaScript's \<^verbatim>\<open>.length\<close>.
\<close>

text \<open>
  The class \<^verbatim>\<open>\s\<close> of a JavaScript regular expression, on the code units below
  \<open>0x100\<close>: tab, line feed, vertical tab, form feed, carriage return, space and the
  no-break space.
\<close>

definition isSpace :: "char \<Rightarrow> bool" where
  "isSpace c = (of_char c \<in> {9, 10, 11, 12, 13, 32, 160 :: nat})"

text \<open>
  \<^verbatim>\<open>s.split(/\s+/)\<close>: the pieces of \<open>s\<close> between the maximal runs of white space.
  As in JavaScript the empty string gives one empty piece, and white space at the start
  or at the end of \<open>s\<close> gives an empty first or last piece.
\<close>

function split_ws :: "string \<Rightarrow> string list" where
  "split_ws [] = [[]]"
| "split_ws (c # cs) =
     (if isSpace c then [] # split_ws (dropWhile isSpace cs)
      else (case split_ws cs of
              [] \<Rightarrow> [[c]]
            | w # ws \<Rightarrow> (c # w) # ws))"
  by pat_completeness auto
termination
  by (relation "measure length") (auto simp: length_dropWhile_le less_Suc_eq_le)

text \<open>\<^verbatim>\<open>xs.join(sep)\<close>.\<close>

fun join :: "string \<Rightarrow> string list \<Rightarrow> string" where
  "join sep [] = []"
| "join sep [x] = x"
| "join sep (x # y # ys) = x @ sep @ join sep (y # ys)"

section \<open>The chunker of loadPDF\<close>

definition CHUNK_SIZE :: nat where
  "CHUNK_SIZE = 800"

text \<open>
  The loop of \<^verbatim>\<open>loadPDF\<close> over \<^verbatim>\<open>words\<close>, on the pair of \<^verbatim>\<open>currentChunk\<close> and
  \<^verbatim>\<open>pdfChunks\<close>:
  \<^verbatim>\<open>
  for (const word of words) {
    if ((currentChunk + " " + word).length <= CHUNK_SIZE) {
      currentChunk += (currentChunk ? " " : "") + word;
    } else {
      pdfChunks.push(currentChunk);
      currentChunk = word;
    }
  }
  \<close>
\<close>

fun chunkLoop :: "string list \<Rightarrow> string \<Rightarrow> string list \<Rightarrow> string \<times> string list" where
  "chunkLoop [] currentChunk pdfChunks = (currentChunk, pdfChunks)"
| "chunkLoop (word # words) currentChunk pdfChunks =
     (if length (currentChunk @ '' '' @ word) \<le> CHUNK_SIZE
      then chunkLoop words
             (currentChunk @ (if currentChunk \<noteq> [] then '' '' else []) @ word) pdfChunks
      else chunkLoop words word (pdfChunks @ [currentChunk]))"

text \<open>
  The chunking part of \<^verbatim>\<open>loadPDF\<close> (lines 70 to 80): split, loop, and the final
  \<^verbatim>\<open>if (currentChunk) pdfChunks.push(currentChunk)\<close>. The chunks are pushed onto the
  module's array \<^verbatim>\<open>pdfChunks\<close>, the third argument of the loop.
\<close>

definition chunkInto :: "string list \<Rightarrow> string \<Rightarrow> string list" where
  "chunkInto pdfChunks pdfText =
     (case chunkLoop (split_ws pdfText) [] pdfChunks of
        (currentChunk, chunks) \<Rightarrow>
          if currentChunk \<noteq> [] then chunks @ [currentChunk] else chunks)"

text \<open>The chunks of a text on the first load, when \<^verbatim>\<open>pdfChunks\<close> is still empty.\<close>

definition chunker :: "string \<Rightarrow> string list" where
  "chunker pdfText = chunkInto [] pdfText"

section \<open>Query terms\<close>

text \<open>
  \<^verbatim>\<open>toLowerCase\<close> on the code units below \<open>0x100\<close>: the letters \<open>A\<close> to \<open>Z\<close> and the
  Latin-1 capitals \<open>0xC0\<close> to \<open>0xDE\<close> (without the multiplication sign \<open>0xD7\<close>) move up
  by \<open>0x20\<close>.
\<close>

definition toLowerChar :: "char \<Rightarrow> char" where
  "toLowerChar c =
     (let n = (of_char c :: nat)
      in if (65 \<le> n \<and> n \<le> 90) \<or> (192 \<le> n \<and> n \<le> 222 \<and> n \<noteq> 215)
         then char_of (n + 32) else c)"

definition toLowerCase :: "string \<Rightarrow> string" where
  "toLowerCase s = map toLowerChar s"

text \<open>The characters of the class \<^verbatim>\<open>[.,?!;:()"']\<close>.\<close>

definition punctuation :: "char list" where
  "punctuation = ''.,?!;:()'' @ [CHR 0x22, CHR 0x27]"

text \<open>\<^verbatim>\<open>term.replace(/[.,?!;:()"']/g, "")\<close>.\<close>

definition stripPunctuation :: "string \<Rightarrow> string" where
  "stripPunctuation t = filter (\<lambda>c. c \<notin> set punctuation) t"

text \<open>
  The \<^verbatim>\<open>queryTerms\<close> of \<^verbatim>\<open>retrieveRelevantContent\<close> (lines 85 to 89): lower-case, split,
  keep the pieces longer than 3, then strip the punctuation of each kept piece.
\<close>

definition queryTerms :: "string \<Rightarrow> string list" where
  "queryTerms query =
     map stripPunctuation
       (filter (\<lambda>t. length t > 3) (split_ws (toLowerCase query)))"

section \<open>Errors\<close>

text \<open>
  What the handler's \<^verbatim>\<open>catch\<close> can receive: the error thrown by \<^verbatim>\<open>loadPDF\<close> for a missing
  file, a failure of reading or parsing the file, the \<^verbatim>\<open>SyntaxError\<close> of \<^verbatim>\<open>new RegExp\<close>,
  a \<^verbatim>\<open>TypeError\<close>, and a failure of the model call. The string is
  the error's \<^verbatim>\<open>message\<close> where the runtime or the library chooses it.
\<close>

datatype js_error =
    PdfNotFound
  | PdfReadError string
  | SyntaxError string
  | TypeError string
  | ModelCallError string

section \<open>Regular expressions built from a query term\<close>

text \<open>
  \<^verbatim>\<open>new RegExp(term, "gi")\<close> reads the term as a pattern. The model covers the patterns
  made of literal characters, the quantifiers \<^verbatim>\<open>*\<close> and \<^verbatim>\<open>+\<close> after a literal character,
  the assertions \<^verbatim>\<open>^\<close> and \<^verbatim>\<open>$\<close>, and the alternation \<^verbatim>\<open>|\<close>. A pattern with one of
  the characters \<^verbatim>\<open>\ . ? ( ) [ ] { }\<close> (escapes, the wildcard, groups, classes, braces)
  is not modelled here: its outcome is taken from a parameter, the rest of the engine.
\<close>

datatype quantifier = Once | Star | Plus

datatype rx_term = Atom char quantifier | AssertStart | AssertEnd

type_synonym regexp_engine = "string \<Rightarrow> string \<Rightarrow> js_error + nat"

definition unmodelledChars :: "char list" where
  "unmodelledChars = [CHR 0x5C, CHR ''.'', CHR ''?'', CHR ''('', CHR '')'', CHR ''['', CHR '']'',
     CHR ''{'', CHR ''}'']"

definition inFragment :: "string \<Rightarrow> bool" where
  "inFragment pattern = (\<forall>c \<in> set pattern. c \<notin> set unmodelledChars)"

text \<open>The alternatives of a pattern of the fragment: its pieces between \<^verbatim>\<open>|\<close>.\<close>

fun splitAlternatives :: "string \<Rightarrow> string list" where
  "splitAlternatives [] = [[]]"
| "splitAlternatives (c # cs) =
     (if c = CHR ''|'' then [] # splitAlternatives cs
      else (case splitAlternatives cs of
              [] \<Rightarrow> [[c]]
            | a # as \<Rightarrow> (c # a) # as))"

text \<open>
  One alternative. \<open>None\<close> is the \<^verbatim>\<open>SyntaxError\<close> "nothing to repeat": a quantifier at
  the start, after an assertion or after another quantifier.
\<close>

fun parseAlternative :: "string \<Rightarrow> rx_term list option" where
  "parseAlternative [] = Some []"
| "parseAlternative (c # cs) =
     (if c = CHR ''*'' \<or> c = CHR ''+'' then None
      else if c = CHR ''^'' then map_option (Cons AssertStart) (parseAlternative cs)
      else if c = CHR ''$'' then map_option (Cons AssertEnd) (parseAlternative cs)
      else (case cs of
              [] \<Rightarrow> Some [Atom c Once]
            | q # cs' \<Rightarrow>
                if q = CHR ''*'' then map_option (Cons (Atom c Star)) (parseAlternative cs')
                else if q = CHR ''+'' then map_option (Cons (Atom c Plus)) (parseAlternative cs')
                else map_option (Cons (Atom c Once)) (parseAlternative cs)))"

fun parseAlternatives :: "string list \<Rightarrow> rx_term list list option" where
  "parseAlternatives [] = Some []"
| "parseAlternatives (a # as) =
     (case parseAlternative a of
        None \<Rightarrow> None
      | Some ts \<Rightarrow> map_option (Cons ts) (parseAlternatives as))"

definition parsePattern :: "string \<Rightarrow> rx_term list list option" where
  "parsePattern pattern = parseAlternatives (splitAlternatives pattern)"

text \<open>
  The flag \<^verbatim>\<open>i\<close> compares characters after \<^verbatim>\<open>Canonicalize\<close>, which maps a character to
  its upper case. The two small letters of Latin-1 whose capital lies above \<open>0xFF\<close>
  (\<open>0xB5\<close> and \<open>0xFF\<close>) are equal to no other code unit below \<open>0x100\<close> after that
  mapping and stay as they are here.
\<close>

definition canonicalize :: "char \<Rightarrow> char" where
  "canonicalize c =
     (let n = (of_char c :: nat)
      in if (97 \<le> n \<and> n \<le> 122) \<or> (224 \<le> n \<and> n \<le> 254 \<and> n \<noteq> 247)
         then char_of (n - 32) else c)"

text \<open>
  Backtracking over the number of repetitions of a greedy quantifier: the counts
  \<open>k\<close>, \<open>k - 1\<close>, down to \<open>lo\<close>, the first one for which the rest of the pattern matches.
\<close>

primrec tryCounts :: "(nat \<Rightarrow> 'a option) \<Rightarrow> nat \<Rightarrow> nat \<Rightarrow> 'a option" where
  "tryCounts f lo 0 = (if lo = 0 then f 0 else None)"
| "tryCounts f lo (Suc k) =
     (if Suc k < lo then None
      else (case f (Suc k) of
              Some r \<Rightarrow> Some r
            | None \<Rightarrow> tryCounts f lo k))"

text \<open>
  Matching one alternative at index \<open>i\<close> of the subject, \<open>rest\<close> being the subject from
  \<open>i\<close> on: the number of characters the match takes, or \<open>None\<close>.
\<close>

fun matchTerms :: "rx_term list \<Rightarrow> nat \<Rightarrow> string \<Rightarrow> nat option" where
  "matchTerms [] i rest = Some 0"
| "matchTerms (AssertStart # ts) i rest = (if i = 0 then matchTerms ts i rest else None)"
| "matchTerms (AssertEnd # ts) i rest = (if rest = [] then matchTerms ts i rest else None)"
| "matchTerms (Atom c Once # ts) i rest =
     (case rest of
        [] \<Rightarrow> None
      | x # xs \<Rightarrow>
          if canonicalize x = canonicalize c then map_option Suc (matchTerms ts (Suc i) xs)
          else None)"
| "matchTerms (Atom c Star # ts) i rest =
     (let k = length (takeWhile (\<lambda>x. canonicalize x = canonicalize c) rest)
      in tryCounts (\<lambda>j. map_option (\<lambda>n. j + n) (matchTerms ts (i + j) (drop j rest))) 0 k)"
| "matchTerms (Atom c Plus # ts) i rest =
     (let k = length (takeWhile (\<lambda>x. canonicalize x = canonicalize c) rest)
      in tryCounts (\<lambda>j. map_option (\<lambda>n. j + n) (matchTerms ts (i + j) (drop j rest))) 1 k)"

text \<open>The alternatives are tried from left to right.\<close>

fun matchAlternatives :: "rx_term list list \<Rightarrow> nat \<Rightarrow> string \<Rightarrow> nat option" where
  "matchAlternatives [] i rest = None"
| "matchAlternatives (ts # alts) i rest =
     (case matchTerms ts i rest of
        Some n \<Rightarrow> Some n
      | None \<Rightarrow> matchAlternatives alts i rest)"

text \<open>
  The number of entries of \<^verbatim>\<open>subject.match(regex)\<close> for a regular expression with the
  flag \<^verbatim>\<open>g\<close>: the search goes on behind each match, and one character further after an
  empty match, until it is past the end of the subject.
\<close>

function countMatches :: "rx_term list list \<Rightarrow> nat \<Rightarrow> string \<Rightarrow> nat" where
  "countMatches alts i [] = (case matchAlternatives alts i [] of None \<Rightarrow> 0 | Some n \<Rightarrow> 1)"
| "countMatches alts i (x # xs) =
     (case matchAlternatives alts i (x # xs) of
        None \<Rightarrow> countMatches alts (Suc i) xs
      | Some n \<Rightarrow>
          if n = 0 then 1 + countMatches alts (Suc i) xs
          else 1 + countMatches alts (i + n) (drop n (x # xs)))"
  by pat_completeness auto
termination
  by (relation "measure (\<lambda>(alts, i, rest). length rest)") auto

text \<open>
  Lines 95 to 97: \<^verbatim>\<open>new RegExp(term, "gi")\<close>, \<^verbatim>\<open>chunkLower.match(regex)\<close> and the number of
  matches (\<open>0\<close> when \<^verbatim>\<open>match\<close> returns \<^verbatim>\<open>null\<close>), or the \<^verbatim>\<open>SyntaxError\<close> of the constructor.
\<close>

definition matchCount :: "regexp_engine \<Rightarrow> string \<Rightarrow> string \<Rightarrow> js_error + nat" where
  "matchCount engine pattern subject =
     (if inFragment pattern
      then (case parsePattern pattern of
              None \<Rightarrow>
                Inl (SyntaxError
                  (''Invalid regular expression: /'' @ pattern @ ''/gi: Nothing to repeat''))
            | Some alts \<Rightarrow> Inr (countMatches alts 0 subject))
      else engine pattern subject)"

section \<open>Retrieval\<close>

record scored_chunk =
  chunk :: string
  score :: nat

text \<open>The loop over \<^verbatim>\<open>queryTerms\<close> inside the callback of \<^verbatim>\<open>pdfChunks.map\<close> (lines 93 to 98).\<close>

fun scoreLoop :: "regexp_engine \<Rightarrow> string \<Rightarrow> string list \<Rightarrow> nat \<Rightarrow> js_error + nat" where
  "scoreLoop engine chunkLower [] sc = Inr sc"
| "scoreLoop engine chunkLower (t # ts) sc =
     (case matchCount engine t chunkLower of
        Inl e \<Rightarrow> Inl e
      | Inr n \<Rightarrow> scoreLoop engine chunkLower ts (sc + n))"

text \<open>The callback of \<^verbatim>\<open>pdfChunks.map\<close> (lines 91 to 100).\<close>

definition scoreChunk :: "regexp_engine \<Rightarrow> string list \<Rightarrow> string \<Rightarrow> js_error + scored_chunk" where
  "scoreChunk engine terms c =
     (case scoreLoop engine (toLowerCase c) terms 0 of
        Inl e \<Rightarrow> Inl e
      | Inr sc \<Rightarrow> Inr \<lparr>chunk = c, score = sc\<rparr>)"

text \<open>\<^verbatim>\<open>pdfChunks.map\<close>: an exception in the callback ends the whole call.\<close>

fun scoreChunks :: "regexp_engine \<Rightarrow> string list \<Rightarrow> string list \<Rightarrow> js_error + scored_chunk list" where
  "scoreChunks engine terms [] = Inr []"
| "scoreChunks engine terms (c # cs) =
     (case scoreChunk engine terms c of
        Inl e \<Rightarrow> Inl e
      | Inr item \<Rightarrow>
          (case scoreChunks engine terms cs of
             Inl e \<Rightarrow> Inl e
           | Inr items \<Rightarrow> Inr (item # items)))"

text \<open>
  \<^verbatim>\<open>Array.prototype.sort\<close> with a comparator is a stable sort: an insertion sort that
  puts an element before the first later element it does not have to follow.
\<close>

fun insertBy :: "('a \<Rightarrow> 'a \<Rightarrow> int) \<Rightarrow> 'a \<Rightarrow> 'a list \<Rightarrow> 'a list" where
  "insertBy cmp x [] = [x]"
| "insertBy cmp x (y # ys) = (if cmp x y \<le> 0 then x # y # ys else y # insertBy cmp x ys)"

definition sortBy :: "('a \<Rightarrow> 'a \<Rightarrow> int) \<Rightarrow> 'a list \<Rightarrow> 'a list" where
  "sortBy cmp xs = foldr (insertBy cmp) xs []"

text \<open>The comparator \<^verbatim>\<open>(a, b) => b.score - a.score\<close>.\<close>

definition byScoreDesc :: "scored_chunk \<Rightarrow> scored_chunk \<Rightarrow> int" where
  "byScoreDesc a b = int (score b) - int (score a)"

text \<open>Lines 101 to 104: \<^verbatim>\<open>filter\<close>, \<^verbatim>\<open>sort\<close> and \<^verbatim>\<open>slice(0, 3)\<close>.\<close>

definition topChunks :: "scored_chunk list \<Rightarrow> scored_chunk list" where
  "topChunks scoredChunks =
     take 3 (sortBy byScoreDesc (filter (\<lambda>item. score item > 0) scoredChunks))"

text \<open>
  \<^verbatim>\<open>retrieveRelevantContent(query)\<close>, with the module's \<^verbatim>\<open>pdfChunks\<close> as an argument.
\<close>

definition retrieveRelevantContent ::
  "regexp_engine \<Rightarrow> string list \<Rightarrow> string \<Rightarrow> js_error + string list" where
  "retrieveRelevantContent engine chunks query =
     (let terms = queryTerms query
      in if length terms = 0 then Inr []
         else (case scoreChunks engine terms chunks of
                 Inl e \<Rightarrow> Inl e
               | Inr scoredChunks \<Rightarrow> Inr (map chunk (topChunks scoredChunks))))"

section \<open>Session memory\<close>

datatype role = System | User | Assistant

record chat_message =
  role :: role
  content :: string

text \<open>
  \<^verbatim>\<open>sessionMemories\<close> is a plain object used as a dictionary from session identifiers to
  \<^verbatim>\<open>BufferMemory\<close> objects. A \<^verbatim>\<open>BufferMemory\<close> is modelled by the list of the messages of
  its \<^verbatim>\<open>ChatMessageHistory\<close>, oldest first.
\<close>

type_synonym session_memories = "string \<rightharpoonup> chat_message list"

text \<open>
  The module's variables: \<^verbatim>\<open>sessionMemories\<close>, \<^verbatim>\<open>pdfText\<close> (\<open>None\<close> is \<^verbatim>\<open>null\<close>) and
  \<^verbatim>\<open>pdfChunks\<close>.
\<close>

record server_state =
  sessionMemories :: session_memories
  pdfText :: "string option"
  pdfChunks :: "string list"

definition initialState :: server_state where
  "initialState = \<lparr>sessionMemories = Map.empty, pdfText = None, pdfChunks = []\<rparr>"

text \<open>The stored history of a session: empty for a session without an entry.\<close>

definition history :: "server_state \<Rightarrow> string \<Rightarrow> chat_message list" where
  "history s sid = (case sessionMemories s sid of None \<Rightarrow> [] | Some h \<Rightarrow> h)"

text \<open>
  The object \<^verbatim>\<open>sessionMemories\<close> inherits the properties of \<^verbatim>\<open>Object.prototype\<close>. For one
  of these names \<^verbatim>\<open>sessionMemories[sessionId]\<close> is the inherited value, which is truthy and
  is no \<^verbatim>\<open>BufferMemory\<close>.
\<close>

definition objectPrototypeKeys :: "string list" where
  "objectPrototypeKeys =
     [''constructor'', ''__defineGetter__'', ''__defineSetter__'', ''hasOwnProperty'',
      ''__lookupGetter__'', ''__lookupSetter__'', ''isPrototypeOf'', ''propertyIsEnumerable'',
      ''toString'', ''valueOf'', ''__proto__'', ''toLocaleString'']"

text \<open>
  \<^verbatim>\<open>getSessionMemory(sessionId)\<close>: the memory of the session, created empty when the
  object has no truthy value under that name. \<open>None\<close> stands for the inherited value
  returned for a name of \<^verbatim>\<open>Object.prototype\<close>.
\<close>

definition getSessionMemory ::
  "string \<Rightarrow> server_state \<Rightarrow> chat_message list option \<times> server_state" where
  "getSessionMemory sid s =
     (if sid \<in> set objectPrototypeKeys then (None, s)
      else (case sessionMemories s sid of
              None \<Rightarrow> (Some [], s\<lparr>sessionMemories := (sessionMemories s)(sid \<mapsto> [])\<rparr>)
            | Some h \<Rightarrow> (Some h, s)))"

section \<open>The environment of a request\<close>

text \<open>
  What a request finds outside the module: whether the file of the handbook exists
  (\<^verbatim>\<open>fs.existsSync(pdfPath)\<close>), the outcome of reading and parsing it
  (\<^verbatim>\<open>fs.readFileSync\<close> and \<^verbatim>\<open>pdfParse\<close>: an error or the text), the outcome of
  \<^verbatim>\<open>chatModel.invoke(messages)\<close> (an error or the content of the response), and the regular
  expression engine for the patterns outside the modelled fragment.
\<close>

record environment =
  fileExists :: bool
  readAndParse :: "js_error + string"
  invoke :: "chat_message list \<Rightarrow> js_error + string"
  regexpEngine :: regexp_engine

text \<open>The calls a request makes, in order.\<close>

datatype effect =
    LoadPDF
  | ReadFileSync
  | Retrieve string
  | Invoke "chat_message list"
  | SaveContext string string

section \<open>loadPDF\<close>

text \<open>
  \<^verbatim>\<open>loadPDF\<close> is an \<^verbatim>\<open>async\<close> function with one \<^verbatim>\<open>await\<close>, at \<^verbatim>\<open>pdfParse\<close> (line 68). A call runs
  in two steps, and other requests can run between them.

  The first step (lines 61 to 68): the cached text is returned when \<^verbatim>\<open>pdfText\<close> is truthy
  (\<^verbatim>\<open>null\<close> and the empty string are falsy); the error is thrown when the file is missing;
  otherwise the file is read, the parse is started and the call waits for it.
\<close>

datatype load_step = Returned "js_error + string" | AwaitingParse

definition loadPDF_enter :: "environment \<Rightarrow> server_state \<Rightarrow> load_step \<times> effect list" where
  "loadPDF_enter env s =
     (let cached = (case pdfText s of None \<Rightarrow> [] | Some text \<Rightarrow> text)
      in if cached \<noteq> [] then (Returned (Inr cached), [])
         else if \<not> fileExists env then (Returned (Inl PdfNotFound), [])
         else (AwaitingParse, [ReadFileSync]))"

text \<open>
  The second step (lines 68 to 81), in the state the server has when the parse is over:
  the error of the read or the parse, or the text is stored in \<^verbatim>\<open>pdfText\<close> and its chunks are
  pushed onto \<^verbatim>\<open>pdfChunks\<close> as it is then.
\<close>

definition loadPDF_resume ::
  "environment \<Rightarrow> server_state \<Rightarrow> (js_error + string) \<times> server_state" where
  "loadPDF_resume env s =
     (case readAndParse env of
        Inl e \<Rightarrow> (Inl e, s)
      | Inr text \<Rightarrow>
          (Inr text, s\<lparr>pdfText := Some text, pdfChunks := chunkInto (pdfChunks s) text\<rparr>))"

text \<open>A call of \<^verbatim>\<open>loadPDF\<close> during which nothing else runs: both steps in a row.\<close>

definition loadPDF ::
  "environment \<Rightarrow> server_state \<Rightarrow> (js_error + string) \<times> effect list \<times> server_state" where
  "loadPDF env s =
     (case loadPDF_enter env s of
        (Returned r, fx) \<Rightarrow> (r, fx, s)
      | (AwaitingParse, fx) \<Rightarrow>
          (case loadPDF_resume env s of (r, s') \<Rightarrow> (r, fx, s')))"

section \<open>The chat endpoint\<close>

text \<open>
  A value of a JSON body, as \<^verbatim>\<open>express.json()\<close> parses it; a number is its value.
\<close>

datatype json =
    JNull
  | JBool bool
  | JNumber real
  | JString string
  | JArray "json list"
  | JObject "(string \<times> json) list"

text \<open>
  The truthiness of a value in a condition: \<^verbatim>\<open>false\<close>, \<^verbatim>\<open>null\<close>, \<^verbatim>\<open>0\<close> and the empty string are
  falsy, every other value is truthy.
\<close>

fun truthy :: "json \<Rightarrow> bool" where
  "truthy JNull = False"
| "truthy (JBool b) = b"
| "truthy (JNumber x) = (x \<noteq> 0)"
| "truthy (JString str) = (str \<noteq> [])"
| "truthy (JArray xs) = True"
| "truthy (JObject kvs) = True"

text \<open>
  The body of a request, of which the handler reads the fields \<^verbatim>\<open>message\<close>, \<^verbatim>\<open>useRAG\<close> and
  \<^verbatim>\<open>sessionId\<close> (lines 111 to 113); \<open>None\<close> is an absent field. The handler does not check the
  type of \<^verbatim>\<open>useRAG\<close>: it keeps every value other than \<^verbatim>\<open>undefined\<close> (line 112) and tests its
  truthiness (line 119), so \<^verbatim>\<open>useRAG\<close> is any value of the body.
\<close>

record chat_request =
  message :: string
  useRAG :: "json option"
  sessionId :: "string option"

text \<open>
  The two responses of the handler: \<^verbatim>\<open>res.json({ reply, sources })\<close>, and the status 500
  with \<^verbatim>\<open>{ error, message, reply }\<close> of the \<^verbatim>\<open>catch\<close>.
\<close>

datatype response =
    Json200 string "string list"
  | Json500 string string string

text \<open>The \<^verbatim>\<open>message\<close> of an error.\<close>

fun errorMessage :: "js_error \<Rightarrow> string" where
  "errorMessage PdfNotFound =
     ''Employee handbook PDF not found on the server. Please check the 'data' folder.''"
| "errorMessage (PdfReadError m) = m"
| "errorMessage (SyntaxError m) = m"
| "errorMessage (TypeError m) = m"
| "errorMessage (ModelCallError m) = m"

text \<open>The response of the \<^verbatim>\<open>catch\<close> (lines 160 to 164).\<close>

definition errorResponse :: "js_error \<Rightarrow> response" where
  "errorResponse err =
     Json500 ''Model call failed'' (errorMessage err)
       ''Sorry, I encountered an error. Please try again.''"

text \<open>
  Line 112 and the tests of lines 119 and 125: an absent \<^verbatim>\<open>useRAG\<close> counts as \<^verbatim>\<open>true\<close>, any
  other value is kept and tested for truthiness.
\<close>

definition ragFlag :: "chat_request \<Rightarrow> bool" where
  "ragFlag req = (case useRAG req of None \<Rightarrow> True | Some v \<Rightarrow> truthy v)"

text \<open>Line 113: \<^verbatim>\<open>req.body.sessionId || "default_session"\<close>; the empty string is falsy.\<close>

definition requestSession :: "chat_request \<Rightarrow> string" where
  "requestSession req =
     (case sessionId req of
        None \<Rightarrow> ''default_session''
      | Some sid \<Rightarrow> if sid = [] then ''default_session'' else sid)"

text \<open>The system message (lines 125 to 139).\<close>

definition systemMessage :: "bool \<Rightarrow> string list \<Rightarrow> chat_message" where
  "systemMessage rag sources =
     \<lparr>role = System,
      content =
        (if rag then
           (if length sources > 0 then
              ''You are a helpful assistant for Contoso Electronics. You must ONLY use the information provided below to answer.\<newline>\<newline>--- EMPLOYEE HANDBOOK EXCERPTS ---\<newline>''
              @ join ''\<newline>\<newline>'' sources @ ''\<newline>--- END OF EXCERPTS ---''
            else
              ''You are a helpful assistant for Contoso Electronics. The employee handbook does not contain relevant information for this question. Reply politely: ''
              @ [CHR 0x22]
              @ ''I'm sorry, I don't know. The employee handbook does not contain information about that.''
              @ [CHR 0x22])
         else
           ''You are a helpful and knowledgeable assistant. Answer the user's questions concisely and informatively.'')\<rparr>"

text \<open>Lines 142 to 146: the messages for the model.\<close>

definition messagesFor :: "chat_request \<Rightarrow> chat_message list \<Rightarrow> string list \<Rightarrow> chat_message list" where
  "messagesFor req chat_history sources =
     [systemMessage (ragFlag req) sources] @ chat_history
     @ [\<lparr>role = User, content = message req\<rparr>]"

text \<open>
  The handler of \<^verbatim>\<open>POST /chat\<close> is an \<^verbatim>\<open>async\<close> function. It is modelled with two points where a
  request waits and other requests can run: the parse of the file inside \<^verbatim>\<open>loadPDF\<close> (line
  68) and the call of the model (line 149). The calls of the in-memory session store
  (lines 116 and 152) are taken as steps that do not wait. A waiting request keeps its
  environment, its body and the history it has read (\<^verbatim>\<open>memoryVars.chat_history\<close>), and after
  retrieval its sources.
\<close>

datatype pending =
    AwaitParse environment chat_request "chat_message list"
  | AwaitInvoke environment chat_request "chat_message list" "string list"

datatype progress = Finished response | Pending pending

fun requestOf :: "pending \<Rightarrow> chat_request" where
  "requestOf (AwaitParse env req chat_history) = req"
| "requestOf (AwaitInvoke env req chat_history sources) = req"

text \<open>
  Lines 125 to 149, up to the \<^verbatim>\<open>await\<close>: the messages are built and the model is invoked.
\<close>

definition startInvoke ::
  "environment \<Rightarrow> chat_request \<Rightarrow> chat_message list \<Rightarrow> string list \<Rightarrow> progress \<times> effect list" where
  "startInvoke env req chat_history sources =
     (Pending (AwaitInvoke env req chat_history sources),
      [Invoke (messagesFor req chat_history sources)])"

text \<open>
  Lines 149 to 157, after the \<^verbatim>\<open>await\<close>: a failure of the model ends in the \<^verbatim>\<open>catch\<close>;
  otherwise \<^verbatim>\<open>saveContext\<close> appends the input as a message of the user and the output as a
  message of the assistant to the history of the session as it is then, and the reply is
  sent.
\<close>

definition finishInvoke ::
  "environment \<Rightarrow> chat_request \<Rightarrow> chat_message list \<Rightarrow> string list \<Rightarrow> server_state \<Rightarrow>
     response \<times> effect list \<times> server_state" where
  "finishInvoke env req chat_history sources s =
     (case invoke env (messagesFor req chat_history sources) of
        Inl err \<Rightarrow> (errorResponse err, [], s)
      | Inr reply \<Rightarrow>
          (Json200 reply sources,
           [SaveContext (message req) reply],
           s\<lparr>sessionMemories := (sessionMemories s)(requestSession req \<mapsto>
                history s (requestSession req)
                @ [\<lparr>role = User, content = message req\<rparr>,
                   \<lparr>role = Assistant, content = reply\<rparr>])\<rparr>))"

text \<open>
  Lines 120 to 149, from the result of \<^verbatim>\<open>await loadPDF()\<close> on: an error of the load ends in
  the \<^verbatim>\<open>catch\<close>, as does an exception of the retrieval; otherwise the model is invoked with
  the retrieved sources.
\<close>

definition afterLoad ::
  "environment \<Rightarrow> chat_request \<Rightarrow> chat_message list \<Rightarrow> js_error + string \<Rightarrow> server_state \<Rightarrow>
     progress \<times> effect list" where
  "afterLoad env req chat_history loaded s =
     (case loaded of
        Inl err \<Rightarrow> (Finished (errorResponse err), [])
      | Inr text \<Rightarrow>
          (case retrieveRelevantContent (regexpEngine env) (pdfChunks s) (message req) of
             Inl err \<Rightarrow> (Finished (errorResponse err), [Retrieve (message req)])
           | Inr sources \<Rightarrow>
               (case startInvoke env req chat_history sources of
                  (p, fx) \<Rightarrow> (p, Retrieve (message req) # fx))))"

text \<open>
  The handler from the arrival of a request to its first wait, or to its response. Every
  exception of the \<^verbatim>\<open>try\<close> block ends in the response of the \<^verbatim>\<open>catch\<close>; what the module's
  variables had become by then stays.
\<close>

definition chatStart ::
  "environment \<Rightarrow> chat_request \<Rightarrow> server_state \<Rightarrow> progress \<times> effect list \<times> server_state" where
  "chatStart env req s =
     (case getSessionMemory (requestSession req) s of
        (None, s1) \<Rightarrow>
          (Finished (errorResponse (TypeError ''memory.loadMemoryVariables is not a function'')),
           [], s1)
      | (Some chat_history, s1) \<Rightarrow>
          if ragFlag req then
            (case loadPDF_enter env s1 of
               (Returned loaded, fx) \<Rightarrow>
                 (case afterLoad env req chat_history loaded s1 of
                    (p, fx') \<Rightarrow> (p, LoadPDF # fx @ fx', s1))
             | (AwaitingParse, fx) \<Rightarrow>
                 (Pending (AwaitParse env req chat_history), LoadPDF # fx, s1))
          else
            (case startInvoke env req chat_history [] of (p, fx) \<Rightarrow> (p, fx, s1)))"

text \<open>A waiting request goes on, in the state the server has by then.\<close>

fun chatResume :: "pending \<Rightarrow> server_state \<Rightarrow> progress \<times> effect list \<times> server_state" where
  "chatResume (AwaitParse env req chat_history) s =
     (case loadPDF_resume env s of
        (loaded, s1) \<Rightarrow>
          (case afterLoad env req chat_history loaded s1 of (p, fx) \<Rightarrow> (p, fx, s1)))"
| "chatResume (AwaitInvoke env req chat_history sources) s =
     (case finishInvoke env req chat_history sources s of
        (resp, fx, s1) \<Rightarrow> (Finished resp, fx, s1))"

text \<open>The number of waits a waiting request still has before it.\<close>

fun waits :: "pending \<Rightarrow> nat" where
  "waits (AwaitParse env req chat_history) = 1"
| "waits (AwaitInvoke env req chat_history sources) = 0"

text \<open>A waiting request goes on to its response, with no other request in between.\<close>

function complete :: "pending \<Rightarrow> server_state \<Rightarrow> response \<times> effect list \<times> server_state" where
  "complete t s =
     (case chatResume t s of
        (Finished resp, fx, s1) \<Rightarrow> (resp, fx, s1)
      | (Pending t', fx, s1) \<Rightarrow>
          (case complete t' s1 of (resp, fx', s2) \<Rightarrow> (resp, fx @ fx', s2)))"
  by pat_completeness auto
termination
proof -
  have fewer: "waits t' < waits t" if "(Pending t', fx, s1) = chatResume t s" for t s t' fx s1
    using that
    by (cases t) (auto simp: afterLoad_def startInvoke_def split: prod.splits sum.splits)
  show ?thesis
    by (relation "measure (\<lambda>(t, s). waits t)") (auto dest: fewer)
qed

declare complete.simps [simp del]

text \<open>
  A request handled with no other request in between, from its arrival to its response:
  the response, the calls made and the state afterwards.
\<close>

definition chat ::
  "environment \<Rightarrow> chat_request \<Rightarrow> server_state \<Rightarrow> response \<times> effect list \<times> server_state" where
  "chat env req s =
     (case chatStart env req s of
        (Finished resp, fx, s1) \<Rightarrow> (resp, fx, s1)
      | (Pending t, fx, s1) \<Rightarrow>
          (case complete t s1 of (resp, fx', s2) \<Rightarrow> (resp, fx @ fx', s2)))"

text \<open>
  The model call of such a request (lines 141 to 157): the messages are built, the model
  is invoked, and only after a response has arrived the exchange is saved and the reply
  sent.
\<close>

definition askModel ::
  "environment \<Rightarrow> chat_request \<Rightarrow> chat_message list \<Rightarrow> string list \<Rightarrow> server_state \<Rightarrow>
     response \<times> effect list \<times> server_state" where
  "askModel env req chat_history sources s =
     (case finishInvoke env req chat_history sources s of
        (resp, fx, s') \<Rightarrow> (resp, Invoke (messagesFor req chat_history sources) # fx, s'))"

text \<open>
  The server handling requests that do not overlap, each answered before the next one
  arrives and each in the environment it finds: the responses, and the state after the
  last one.
\<close>

fun serve ::
  "(environment \<times> chat_request) list \<Rightarrow> server_state \<Rightarrow> response list \<times> server_state" where
  "serve [] s = ([], s)"
| "serve ((env, req) # rest) s =
     (case chat env req s of
        (resp, fx, s') \<Rightarrow>
          (case serve rest s' of
             (resps, s'') \<Rightarrow> (resp # resps, s'')))"

text \<open>
  The server with overlapping requests. An event is the arrival of a request, which runs
  to its first wait, or the continuation of the waiting request at a position of the
  list of the waiting requests (oldest first), which runs to its next wait or to its
  response. The result: the answered requests with their responses in the order of the
  responses, the calls made in order, the state, and the requests still waiting.
\<close>

datatype event = Arrive environment chat_request | Continue nat

fun overlap ::
  "event list \<Rightarrow> server_state \<Rightarrow> pending list \<Rightarrow>
     (chat_request \<times> response) list \<times> effect list \<times> server_state \<times> pending list" where
  "overlap [] s waiting = ([], [], s, waiting)"
| "overlap (Arrive env req # evs) s waiting =
     (case chatStart env req s of
        (Finished resp, fx, s1) \<Rightarrow>
          (case overlap evs s1 waiting of
             (answered, fx', s2, waiting') \<Rightarrow> ((req, resp) # answered, fx @ fx', s2, waiting'))
      | (Pending t, fx, s1) \<Rightarrow>
          (case overlap evs s1 (waiting @ [t]) of
             (answered, fx', s2, waiting') \<Rightarrow> (answered, fx @ fx', s2, waiting')))"
| "overlap (Continue i # evs) s waiting =
     (if i < length waiting then
        (case chatResume (waiting ! i) s of
           (Finished resp, fx, s1) \<Rightarrow>
             (case overlap evs s1 (take i waiting @ drop (Suc i) waiting) of
                (answered, fx', s2, waiting') \<Rightarrow>
                  ((requestOf (waiting ! i), resp) # answered, fx @ fx', s2, waiting'))
         | (Pending t, fx, s1) \<Rightarrow>
             (case overlap evs s1 (waiting[i := t]) of
                (answered, fx', s2, waiting') \<Rightarrow> (answered, fx @ fx', s2, waiting')))
      else overlap evs s waiting)"

text \<open>The events of requests that do not overlap: each arrives and goes on to its response.\<close>

definition oneByOne :: "(environment \<times> chat_request) list \<Rightarrow> event list" where
  "oneByOne reqs = concat (map (\<lambda>(env, req). [Arrive env req, Continue 0, Continue 0]) reqs)"

section \<open>Notions of the specification\<close>

text \<open>
  The score the callback of \<^verbatim>\<open>pdfChunks.map\<close> gives a chunk, as a number (\<open>0\<close> when the
  callback throws).
\<close>

definition relevance :: "regexp_engine \<Rightarrow> string list \<Rightarrow> string \<Rightarrow> nat" where
  "relevance engine terms c =
     (case scoreLoop engine (toLowerCase c) terms 0 of Inl e \<Rightarrow> 0 | Inr n \<Rightarrow> n)"

text \<open>
  The specification's score, after its words: for each term the number of
  non-overlapping, case-insensitive occurrences of the term as a literal substring of
  the chunk, found from left to right, summed over the terms. (The empty term occurs once
  at every position of the chunk and once at its end.)
\<close>

fun startsWithIgnoreCase :: "string \<Rightarrow> string \<Rightarrow> bool" where
  "startsWithIgnoreCase [] s = True"
| "startsWithIgnoreCase (t # ts) [] = False"
| "startsWithIgnoreCase (t # ts) (x # xs) =
     (toLowerChar t = toLowerChar x \<and> startsWithIgnoreCase ts xs)"

function literalOccurrences :: "string \<Rightarrow> string \<Rightarrow> nat" where
  "literalOccurrences t [] = (if t = [] then 1 else 0)"
| "literalOccurrences t (x # xs) =
     (if startsWithIgnoreCase t (x # xs)
      then 1 + literalOccurrences t (drop (max 1 (length t)) (x # xs))
      else literalOccurrences t xs)"
  by pat_completeness auto
termination
  by (relation "measure (\<lambda>(t, s). length s)") auto

definition literalScore :: "string list \<Rightarrow> string \<Rightarrow> nat" where
  "literalScore terms c = sum_list (map (\<lambda>t. literalOccurrences t c) terms)"

text \<open>
  The specification's white-space-normalized text: the white-space-separated tokens of
  the text, joined by single spaces.
\<close>

definition normalizeSpaces :: "string \<Rightarrow> string" where
  "normalizeSpaces text = join '' '' (filter (\<lambda>w. w \<noteq> []) (split_ws text))"

text \<open>
  The successful turns of a session in a run of the server: the message and the reply of
  each request addressed to the session that was answered with a reply, in order.
\<close>

fun sessionTurns :: "string \<Rightarrow> chat_request list \<Rightarrow> response list \<Rightarrow> (string \<times> string) list" where
  "sessionTurns sid (req # reqs) (Json200 reply sources # resps) =
     (if requestSession req = sid then (message req, reply) # sessionTurns sid reqs resps
      else sessionTurns sid reqs resps)"
| "sessionTurns sid (req # reqs) (Json500 e m r # resps) = sessionTurns sid reqs resps"
| "sessionTurns sid reqs resps = []"

text \<open>The two messages a successful turn stores.\<close>

definition turnMessages :: "string \<times> string \<Rightarrow> chat_message list" where
  "turnMessages t = [\<lparr>role = User, content = fst t\<rparr>, \<lparr>role = Assistant, content = snd t\<rparr>]"

text \<open>Whether a response is the error response of the \<^verbatim>\<open>catch\<close>.\<close>

fun isErrorResponse :: "response \<Rightarrow> bool" where
  "isErrorResponse (Json500 e m r) = (e = ''Model call failed'')"
| "isErrorResponse (Json200 reply sources) = False"

text \<open>
  Engines and environments for the examples: an engine that finds no match for the
  patterns outside the modelled fragment, a handbook of one sentence, and a model that
  answers, or fails.
\<close>

definition nullEngine :: regexp_engine where
  "nullEngine pattern subject = Inr 0"

definition handbookEnv :: environment where
  "handbookEnv =
     \<lparr>fileExists = True,
      readAndParse = Inr ''Vacation is 15 days.'',
      invoke = (\<lambda>messages. Inr ''15 days''),
      regexpEngine = nullEngine\<rparr>"

definition vacationRequest :: chat_request where
  "vacationRequest =
     \<lparr>message = ''How long is vacation?'', useRAG = None, sessionId = Some ''s1''\<rparr>"

definition failingEnv :: environment where
  "failingEnv =
     handbookEnv\<lparr>invoke := (\<lambda>messages. Inl (ModelCallError ''503 Service Unavailable''))\<rparr>"

definition missingFileEnv :: environment where
  "missingFileEnv = handbookEnv\<lparr>fileExists := False\<rparr>"

definition emptyTextEnv :: environment where
  "emptyTextEnv = handbookEnv\<lparr>readAndParse := Inr []\<rparr>"

text \<open>
  The request with \<^verbatim>\<open>useRAG\<close> \<^verbatim>\<open>null\<close>, the request of the session named \<^verbatim>\<open>constructor\<close>, and
  two requests that arrive before the parse of either is over.
\<close>

definition nullFlagRequest :: chat_request where
  "nullFlagRequest = vacationRequest\<lparr>useRAG := Some JNull\<rparr>"

definition constructorRequest :: chat_request where
  "constructorRequest = vacationRequest\<lparr>sessionId := Some ''constructor''\<rparr>"

definition twoOverlapping :: "event list" where
  "twoOverlapping =
     [Arrive handbookEnv vacationRequest, Arrive handbookEnv vacationRequest,
      Continue 0, Continue 1, Continue 0, Continue 0]"

text \<open>The state after one answered request, and a run of three requests.\<close>

definition oneTurnState :: server_state where
  "oneTurnState = snd (snd (chat handbookEnv vacationRequest initialState))"

definition threeRequests :: "(environment \<times> chat_request) list" where
  "threeRequests =
     [(handbookEnv, vacationRequest), (failingEnv, vacationRequest),
      (handbookEnv, vacationRequest)]"

text \<open>
  The characters that mean something in a pattern, and the terms without any of them:
  such a term is a pattern that stands for itself.
\<close>

definition patternChars :: "char list" where
  "patternChars = unmodelledChars @ ''*+^$|''"

definition literalTerm :: "string \<Rightarrow> bool" where
  "literalTerm t = (\<forall>c \<in> set t. c \<notin> set patternChars)"

text \<open>A chunk within the maximum size, or a token of the text that is longer.\<close>

definition chunkOk :: "string list \<Rightarrow> string \<Rightarrow> bool" where
  "chunkOk tokens c = (length c \<le> CHUNK_SIZE \<or> (c \<in> set tokens \<and> CHUNK_SIZE < length c))"


section \<open>The character functions on the bits of a character\<close>

text \<open>
  The three functions on characters, stated on the eight bits of a character (the lowest
  first). These equations are the ones used to evaluate the functions on concrete strings.
\<close>

lemma toLowerChar_bits [code]:
  "toLowerChar (Char b0 b1 b2 b3 b4 b5 b6 b7) =
     (if \<not> b5 \<and> b6 \<and>
         (if b7 then \<not> (b0 \<and> b1 \<and> b2 \<and> b4)
          else (b0 \<or> b1 \<or> b2 \<or> b3 \<or> b4) \<and> \<not> (b3 \<and> b4 \<and> (b2 \<or> (b0 \<and> b1))))
      then Char b0 b1 b2 b3 b4 True b6 b7
      else Char b0 b1 b2 b3 b4 b5 b6 b7)"
  by (cases b0; cases b1; cases b2; cases b3; cases b4; cases b5; cases b6; cases b7;
      simp add: toLowerChar_def char_of_def bit_0)

lemma canonicalize_bits [code]:
  "canonicalize (Char b0 b1 b2 b3 b4 b5 b6 b7) =
     (if b5 \<and> b6 \<and>
         (if b7 then \<not> (b0 \<and> b1 \<and> b2 \<and> b4)
          else (b0 \<or> b1 \<or> b2 \<or> b3 \<or> b4) \<and> \<not> (b3 \<and> b4 \<and> (b2 \<or> (b0 \<and> b1))))
      then Char b0 b1 b2 b3 b4 False b6 b7
      else Char b0 b1 b2 b3 b4 b5 b6 b7)"
  by (cases b0; cases b1; cases b2; cases b3; cases b4; cases b5; cases b6; cases b7;
      simp add: canonicalize_def char_of_def bit_0)

lemma isSpace_bits:
  "isSpace (Char b0 b1 b2 b3 b4 b5 b6 b7) =
     (Char b0 b1 b2 b3 b4 b5 b6 b7
        \<in> set [CHR 0x09, CHR 0x0A, CHR 0x0B, CHR 0x0C, CHR 0x0D, CHR 0x20, CHR 0xA0])"
  by (cases b0; cases b1; cases b2; cases b3; cases b4; cases b5; cases b6; cases b7;
      simp add: isSpace_def)

lemma isSpace_code [code]:
  "isSpace c = (c \<in> set [CHR 0x09, CHR 0x0A, CHR 0x0B, CHR 0x0C, CHR 0x0D, CHR 0x20, CHR 0xA0])"
  by (cases c) (simp only: isSpace_bits)

section \<open>Splitting at white space\<close>

lemma split_ws_single: "\<forall>c\<in>set s. \<not> isSpace c \<Longrightarrow> split_ws s = [s]"
  by (induction s) auto

lemma split_ws_append_space:
  "\<forall>c\<in>set xs. \<not> isSpace c \<Longrightarrow> isSpace y \<Longrightarrow>
   split_ws (xs @ y # ys) = xs # split_ws (dropWhile isSpace ys)"
  by (induction xs) auto

lemma isSpace_a: "\<not> isSpace (CHR ''a'')"
  by (simp add: isSpace_def)



lemma toLowerChar_idem: "toLowerChar (toLowerChar c) = toLowerChar c"
  by (auto simp: toLowerChar_def Let_def)



section \<open>The size of the chunks\<close>

text \<open>
  The loop keeps every pushed chunk and the current chunk within the maximum size,
  unless it is a single token that is longer.
\<close>

lemma chunkLoop_bound:
  "chunkLoop ws cur acc = (cur', acc') \<Longrightarrow> set ws \<subseteq> set W \<Longrightarrow>
   \<forall>c\<in>set acc. chunkOk W c \<Longrightarrow> chunkOk W cur \<Longrightarrow>
   (\<forall>c\<in>set acc'. chunkOk W c) \<and> chunkOk W cur'"
proof (induction ws arbitrary: cur acc)
  case Nil
  then show ?case by simp
next
  case (Cons w ws)
  show ?case
  proof (cases "length (cur @ '' '' @ w) \<le> CHUNK_SIZE")
    case True
    let ?cur = "cur @ (if cur \<noteq> [] then '' '' else []) @ w"
    from True have "chunkOk W ?cur" by (simp add: chunkOk_def)
    moreover from Cons.prems(1) True have "chunkLoop ws ?cur acc = (cur', acc')" by simp
    ultimately show ?thesis using Cons.IH[of ?cur acc] Cons.prems by simp
  next
    case False
    have "chunkOk W w"
      using Cons.prems(2) by (auto simp: chunkOk_def)
    moreover from Cons.prems(1) False have "chunkLoop ws w (acc @ [cur]) = (cur', acc')" by simp
    ultimately show ?thesis using Cons.IH[of w "acc @ [cur]"] Cons.prems by simp
  qed
qed

text \<open>A token longer than the maximum size ends up as a chunk or as the current chunk.\<close>

lemma chunkLoop_oversized:
  "chunkLoop ws cur acc = (cur', acc') \<Longrightarrow>
   set acc \<subseteq> set acc' \<union> {cur'} \<and>
   (CHUNK_SIZE < length cur \<longrightarrow> cur \<in> set acc' \<union> {cur'}) \<and>
   (\<forall>w\<in>set ws. CHUNK_SIZE < length w \<longrightarrow> w \<in> set acc' \<union> {cur'})"
proof (induction ws arbitrary: cur acc)
  case Nil
  then show ?case by auto
next
  case (Cons w ws)
  show ?case
  proof (cases "length (cur @ '' '' @ w) \<le> CHUNK_SIZE")
    case True
    let ?cur = "cur @ (if cur \<noteq> [] then '' '' else []) @ w"
    from Cons.prems True have run: "chunkLoop ws ?cur acc = (cur', acc')" by simp
    from True have "\<not> CHUNK_SIZE < length cur" "\<not> CHUNK_SIZE < length w" by simp_all
    then show ?thesis using Cons.IH[OF run] by auto
  next
    case False
    from Cons.prems False have run: "chunkLoop ws w (acc @ [cur]) = (cur', acc')" by simp
    show ?thesis using Cons.IH[OF run] by auto
  qed
qed

text \<open>
  Claim C4. For every text, every chunk of the chunker has at most 800 characters, or it
  is a single token of the text that has more than 800 characters; and every token of
  more than 800 characters is a chunk of its own.
\<close>

theorem chunker_bound:
  "(\<forall>c\<in>set (chunker text). length c \<le> 800 \<or> (c \<in> set (split_ws text) \<and> 800 < length c))
   \<and> (\<forall>w\<in>set (split_ws text). 800 < length w \<longrightarrow> w \<in> set (chunker text))"
proof -
  obtain cur' acc' where run: "chunkLoop (split_ws text) [] [] = (cur', acc')"
    by (cases "chunkLoop (split_ws text) [] []")
  have b: "(\<forall>c\<in>set acc'. chunkOk (split_ws text) c) \<and> chunkOk (split_ws text) cur'"
    using chunkLoop_bound[OF run, of "split_ws text"] by (simp add: chunkOk_def)
  have o: "\<forall>w\<in>set (split_ws text). CHUNK_SIZE < length w \<longrightarrow> w \<in> set acc' \<union> {cur'}"
    using chunkLoop_oversized[OF run] by blast
  have ch: "chunker text = (if cur' \<noteq> [] then acc' @ [cur'] else acc')"
    by (simp add: chunker_def chunkInto_def run)
  have 1: "\<forall>c\<in>set (chunker text). chunkOk (split_ws text) c"
    using b by (auto simp: ch)
  have 2: "\<forall>w\<in>set (split_ws text). CHUNK_SIZE < length w \<longrightarrow> w \<in> set (chunker text)"
    using o by (auto simp: ch)
  from 1 2 show ?thesis by (simp add: chunkOk_def CHUNK_SIZE_def)
qed

theorem chunker_bound_witness:
  "''a b'' \<in> set (chunker ''a b'')
   \<and> (length ''a b'' \<le> 800 \<or> (''a b'' \<in> set (split_ws ''a b'') \<and> 800 < length ''a b''))
   \<and> replicate 801 (CHR ''a'') \<in> set (split_ws (replicate 801 (CHR ''a'') @ '' b''))
   \<and> 800 < length (replicate 801 (CHR ''a''))
   \<and> replicate 801 (CHR ''a'') \<in> set (chunker (replicate 801 (CHR ''a'') @ '' b''))"
proof -
  let ?T = "replicate 801 (CHR ''a'')"
  have m: "''a b'' \<in> set (chunker ''a b'')" by code_simp
  have "split_ws (?T @ CHR '' '' # ''b'') = ?T # split_ws (dropWhile isSpace ''b'')"
    by (rule split_ws_append_space) (simp_all add: isSpace_a, simp add: isSpace_def)
  then have t: "?T \<in> set (split_ws (?T @ '' b''))" by simp
  from chunker_bound[of "''a b''"] chunker_bound[of "?T @ '' b''"] m t show ?thesis
    by simp
qed

section \<open>The chunks against the normalized text\<close>

text \<open>
  Where the chunks do give the normalized text back: for a text that does not end in white
  space and whose first token has fewer characters than the maximum size, the chunks
  joined by single spaces are the normalized text, and no chunk is empty.
\<close>

lemma join_Cons: "join sep (x # ys) = (if ys = [] then x else x @ sep @ join sep ys)"
  by (cases ys) simp_all

lemma join_merge: "join sep (xs @ (a @ sep @ b) # ys) = join sep (xs @ a # b # ys)"
  by (induction xs) (simp_all add: join_Cons)

lemma chunkLoop_join:
  "chunkLoop ts cur acc = (cur', acc') \<Longrightarrow> cur \<noteq> [] \<Longrightarrow> [] \<notin> set ts \<Longrightarrow> [] \<notin> set acc \<Longrightarrow>
   cur' \<noteq> [] \<and> [] \<notin> set acc' \<and> join '' '' (acc' @ [cur']) = join '' '' (acc @ cur # ts)"
proof (induction ts arbitrary: cur acc)
  case Nil
  then show ?case by simp
next
  case (Cons w ts)
  from Cons.prems have w: "w \<noteq> []" and ts: "[] \<notin> set ts" by auto
  show ?case
  proof (cases "length (cur @ '' '' @ w) \<le> CHUNK_SIZE")
    case True
    let ?cur = "cur @ '' '' @ w"
    from Cons.prems(1,2) True have run: "chunkLoop ts ?cur acc = (cur', acc')" by simp
    have "?cur \<noteq> []" by simp
    from Cons.IH[OF run this ts Cons.prems(4)]
    have a: "cur' \<noteq> []" and b: "[] \<notin> set acc'"
      and c: "join '' '' (acc' @ [cur']) = join '' '' (acc @ ?cur # ts)" by blast+
    have "join '' '' (acc @ ?cur # ts) = join '' '' (acc @ cur # w # ts)" by (rule join_merge)
    with c have "join '' '' (acc' @ [cur']) = join '' '' (acc @ cur # w # ts)" by (rule trans)
    with a b show ?thesis by blast
  next
    case False
    from Cons.prems(1) False have run: "chunkLoop ts w (acc @ [cur]) = (cur', acc')" by simp
    from Cons.prems(2,4) have "[] \<notin> set (acc @ [cur])" by simp
    from Cons.IH[OF run w ts this] show ?thesis by simp
  qed
qed

lemma split_ws_not_Nil: "split_ws s \<noteq> []"
  by (induction s rule: split_ws.induct) (auto split: list.splits)

lemma dropWhile_last:
  "cs \<noteq> [] \<Longrightarrow> \<not> P (last cs) \<Longrightarrow> dropWhile P cs \<noteq> [] \<and> last (dropWhile P cs) = last cs"
  by (induction cs) (auto split: if_splits)

lemma split_ws_tl_nonempty:
  "s = [] \<or> \<not> isSpace (last s) \<Longrightarrow> [] \<notin> set (tl (split_ws s))"
proof (induction s rule: split_ws.induct)
  case 1
  then show ?case by simp
next
  case (2 c cs)
  show ?case
  proof (cases "isSpace c")
    case True
    let ?d = "dropWhile isSpace cs"
    from 2(3) True have cs: "cs \<noteq> []" "\<not> isSpace (last cs)" by (auto split: if_splits)
    from dropWhile_last[of cs isSpace, OF cs] have d: "?d \<noteq> []" and ld: "last ?d = last cs" by blast+
    from d have hd: "\<not> isSpace (hd ?d)" by (simp add: hd_dropWhile)
    from 2(1)[OF True] ld cs have ih: "[] \<notin> set (tl (split_ws ?d))" by simp
    from d hd obtain x xs where x: "?d = x # xs" "\<not> isSpace x" by (cases ?d) auto
    from split_ws_not_Nil[of xs] obtain w ws where "split_ws xs = w # ws" by (cases "split_ws xs") auto
    with x ih have "[] \<notin> set (split_ws ?d)" by simp
    with True show ?thesis by simp
  next
    case False
    from 2(3) have "cs = [] \<or> \<not> isSpace (last cs)" by (auto split: if_splits)
    from 2(2)[OF False this] False show ?thesis
      by (cases "split_ws cs") simp_all
  qed
qed

lemma chunker_roundtrip:
  assumes nt: "text = [] \<or> \<not> isSpace (last text)"
    and fit: "case filter (\<lambda>w. w \<noteq> []) (split_ws text) of
                [] \<Rightarrow> True | w # ws \<Rightarrow> length w < CHUNK_SIZE"
  shows "join '' '' (chunker text) = normalizeSpaces text" and "[] \<notin> set (chunker text)"
proof -
  let ?ts = "filter (\<lambda>w. w \<noteq> []) (split_ws text)"
  obtain w0 rest where sp: "split_ws text = w0 # rest"
    using split_ws_not_Nil[of "text"] by (cases "split_ws text") auto
  from split_ws_tl_nonempty[OF nt] sp have rest: "[] \<notin> set rest" by simp
  then have fr: "filter (\<lambda>w. w \<noteq> []) rest = rest" by (induction rest) auto
  have ts: "?ts = (if w0 = [] then rest else w0 # rest)" by (simp add: sp fr)
  have start: "chunkLoop (split_ws text) [] [] =
                 (case ?ts of [] \<Rightarrow> ([], []) | t # ts' \<Rightarrow> chunkLoop ts' t [])"
  proof (cases "w0 = []")
    case True
    show ?thesis
    proof (cases rest)
      case Nil
      with True show ?thesis by (simp add: sp CHUNK_SIZE_def)
    next
      case (Cons r rs)
      with fit ts True have "length r < CHUNK_SIZE" by simp
      moreover from rest Cons have "r \<noteq> []" "filter (\<lambda>w. w \<noteq> []) rs = rs"
        by (auto simp: filter_id_conv)
      ultimately show ?thesis using True Cons by (simp add: sp CHUNK_SIZE_def)
    qed
  next
    case False
    with fit ts have "length w0 < CHUNK_SIZE" by simp
    with False show ?thesis by (simp add: sp fr)
  qed
  have "join '' '' (chunker text) = normalizeSpaces text \<and> [] \<notin> set (chunker text)"
  proof (cases ?ts)
    case Nil
    with start show ?thesis by (simp add: chunker_def chunkInto_def normalizeSpaces_def)
  next
    case (Cons t ts')
    obtain cur' acc' where run: "chunkLoop ts' t [] = (cur', acc')" by (cases "chunkLoop ts' t []")
    from Cons have "t \<in> set ?ts" "set ts' \<subseteq> set ?ts" by auto
    then have t: "t \<noteq> []" and ts': "[] \<notin> set ts'" by auto
    from chunkLoop_join[OF run t ts'] have
      r: "cur' \<noteq> []" "[] \<notin> set acc'" "join '' '' (acc' @ [cur']) = join '' '' (t # ts')" by simp_all
    from start Cons run r(1) have "chunker text = acc' @ [cur']"
      by (simp add: chunker_def chunkInto_def)
    with r Cons show ?thesis by (simp add: normalizeSpaces_def)
  qed
  then show "join '' '' (chunker text) = normalizeSpaces text" and "[] \<notin> set (chunker text)"
    by simp_all
qed

text \<open>
  Claim C3. The claim: the chunks joined by single spaces are the white-space-normalized
  text, and no chunk is empty. The code at a text that is one token of 800 letters: the
  loop pushes the empty \<^verbatim>\<open>currentChunk\<close> before the token, so the first chunk is empty
  and the joined chunks begin with a space. At a text that ends in white space the last
  chunk ends in a space.
\<close>

theorem chunker_empty_chunk:
  "chunker (replicate 800 (CHR ''a'')) = [[], replicate 800 (CHR ''a'')]
   \<and> join '' '' (chunker (replicate 800 (CHR ''a''))) = CHR '' '' # replicate 800 (CHR ''a'')
   \<and> normalizeSpaces (replicate 800 (CHR ''a'')) = replicate 800 (CHR ''a'')
   \<and> chunker ''hello world '' = [''hello world '']
   \<and> normalizeSpaces ''hello world '' = ''hello world''"
proof -
  let ?T = "replicate 800 (CHR ''a'')"
  have s: "split_ws ?T = [?T]" by (rule split_ws_single) (simp add: isSpace_a)
  have c: "chunker ?T = [[], ?T]"
    by (simp add: chunker_def chunkInto_def s CHUNK_SIZE_def)
  have n: "normalizeSpaces ?T = ?T" by (simp add: normalizeSpaces_def s)
  have h: "chunker ''hello world '' = [''hello world '']" by code_simp
  have hn: "normalizeSpaces ''hello world '' = ''hello world''" by code_simp
  from c n h hn show ?thesis by simp
qed

section \<open>The query terms\<close>




section \<open>Retrieval returns the best three chunks\<close>

lemma insertBy_insort:
  "insertBy byScoreDesc x ys = insort_key (\<lambda>item. - int (score item)) x ys"
  by (induction ys) (simp_all add: byScoreDesc_def)

lemma sortBy_sort_key:
  "sortBy byScoreDesc xs = sort_key (\<lambda>item. - int (score item)) xs"
proof -
  have "insertBy byScoreDesc = insort_key (\<lambda>item. - int (score item))"
    by (intro ext) (rule insertBy_insort)
  then show ?thesis by (simp add: sortBy_def sort_key_def)
qed

lemma scoreChunks_map:
  "scoreChunks engine terms cs = Inr items \<Longrightarrow>
   items = map (\<lambda>c. \<lparr>chunk = c, score = relevance engine terms c\<rparr>) cs"
proof (induction cs arbitrary: items)
  case Nil
  then show ?case by simp
next
  case (Cons c cs)
  then show ?case
    by (auto simp: scoreChunk_def relevance_def split: sum.splits)
qed

lemma scoreChunks_scores:
  "scoreChunks engine terms cs = Inr items \<Longrightarrow> c \<in> set cs \<Longrightarrow>
   \<exists>n. scoreLoop engine (toLowerCase c) terms 0 = Inr n"
proof (induction cs arbitrary: items)
  case Nil
  then show ?case by simp
next
  case (Cons a cs)
  then show ?case
    by (auto simp: scoreChunk_def split: sum.splits)
qed

text \<open>
  The three stages after the scoring, for chunks scored by any function \<open>rel\<close>: at most
  three items, each with a positive score, in non-increasing order of score, and the
  items of one score are the first ones of that score in the order of the chunks.
\<close>

lemma topChunks_props:
  fixes rel :: "string \<Rightarrow> nat" and cs :: "string list"
  defines "mk \<equiv> (\<lambda>c. \<lparr>chunk = c, score = rel c\<rparr>)"
  defines "tops \<equiv> topChunks (map mk cs)"
  shows "length tops \<le> 3"
    and "\<forall>item\<in>set tops. chunk item \<in> set cs \<and> score item = rel (chunk item) \<and> 0 < score item"
    and "sorted_wrt (\<lambda>a b. score b \<le> score a) tops"
    and "prefix (filter (\<lambda>c. rel c = k) (map chunk tops)) (filter (\<lambda>c. rel c = k) cs)"
proof -
  let ?f = "\<lambda>item::scored_chunk. - int (score item)"
  let ?F = "filter (\<lambda>item. score item > 0) (map mk cs)"
  let ?S = "sort_key ?f ?F"
  have tk: "tops = take 3 ?S"
    by (simp add: tops_def topChunks_def sortBy_sort_key)
  show "length tops \<le> 3" by (simp add: tk)
  have sub: "set tops \<subseteq> set ?F"
    using set_take_subset[of 3 ?S] by (simp add: tk)
  show mem: "\<forall>item\<in>set tops. chunk item \<in> set cs \<and> score item = rel (chunk item) \<and> 0 < score item"
    using sub by (auto simp: mk_def)
  have "sorted (map ?f ?S)" by (rule sorted_sort_key)
  then have "sorted_wrt (\<lambda>a b. ?f a \<le> ?f b) ?S" by (simp add: sorted_map)
  then have "sorted_wrt (\<lambda>a b. ?f a \<le> ?f b) tops"
    unfolding tk by (rule sorted_wrt_take)
  then show "sorted_wrt (\<lambda>a b. score b \<le> score a) tops" by simp
  have "filter (\<lambda>c. rel c = k) (map chunk tops) = map chunk (filter (\<lambda>item. rel (chunk item) = k) tops)"
    by (simp add: filter_map comp_def)
  also have "filter (\<lambda>item. rel (chunk item) = k) tops = filter (\<lambda>item. score item = k) tops"
    using mem by (intro filter_cong) auto
  finally have lhs: "filter (\<lambda>c. rel c = k) (map chunk tops) = map chunk (filter (\<lambda>item. score item = k) tops)" .
  have pre: "prefix (filter (\<lambda>item. score item = k) tops) (filter (\<lambda>item. score item = k) ?S)"
    unfolding tk by (intro filter_mono_prefix take_is_prefix)
  have "filter (\<lambda>item. score item = k) ?S = filter (\<lambda>item. ?f item = - int k) ?S"
    by (intro filter_cong) auto
  also have "\<dots> = filter (\<lambda>item. ?f item = - int k) ?F"
    by (rule sort_key_stable)
  also have "\<dots> = filter (\<lambda>item. score item = k) ?F"
    by (intro filter_cong) auto
  finally have stable: "filter (\<lambda>item. score item = k) ?S = filter (\<lambda>item. score item = k) ?F" .
  from pre have "prefix (filter (\<lambda>item. score item = k) tops) (filter (\<lambda>item. score item = k) ?F)"
    unfolding stable .
  then have "prefix (map chunk (filter (\<lambda>item. score item = k) tops))
                    (map chunk (filter (\<lambda>item. score item = k) ?F))"
    by (rule map_mono_prefix)
  moreover have "map chunk (filter (\<lambda>item. score item = k) ?F)
      = filter (\<lambda>c. rel c = k \<and> 0 < rel c) cs"
    by (induction cs) (auto simp: mk_def)
  ultimately have p: "prefix (filter (\<lambda>c. rel c = k) (map chunk tops)) (filter (\<lambda>c. rel c = k \<and> 0 < rel c) cs)"
    by (simp add: lhs)
  show "prefix (filter (\<lambda>c. rel c = k) (map chunk tops)) (filter (\<lambda>c. rel c = k) cs)"
  proof (cases "k = 0")
    case True
    then have "filter (\<lambda>c. rel c = k \<and> 0 < rel c) cs = []" by (induction cs) auto
    with p show ?thesis by simp
  next
    case False
    then have "filter (\<lambda>c. rel c = k \<and> 0 < rel c) cs = filter (\<lambda>c. rel c = k) cs"
      by (intro filter_cong) auto
    with p show ?thesis by simp
  qed
qed

text \<open>
  Claim C1. Whenever retrieval returns, for any query and any chunks: it returns at most
  3 chunks; every returned chunk is one of the chunks and has a score greater than 0; the
  returned chunks are in non-increasing order of score; and the returned chunks of one
  score are the first chunks of that score in the original order, so chunks of equal
  score keep their original order.
\<close>

theorem retrieve_top3:
  assumes "retrieveRelevantContent engine chunks query = Inr res"
  shows "length res \<le> 3
    \<and> (\<forall>c\<in>set res. c \<in> set chunks
          \<and> (\<exists>n. scoreLoop engine (toLowerCase c) (queryTerms query) 0 = Inr n \<and> 0 < n))
    \<and> sorted_wrt (\<lambda>a b. relevance engine (queryTerms query) b \<le> relevance engine (queryTerms query) a) res
    \<and> (\<forall>k. prefix (filter (\<lambda>c. relevance engine (queryTerms query) c = k) res)
                    (filter (\<lambda>c. relevance engine (queryTerms query) c = k) chunks))"
proof (cases "length (queryTerms query) = 0")
  case True
  with assms have "res = []" by (simp add: retrieveRelevantContent_def)
  then show ?thesis by simp
next
  case False
  let ?terms = "queryTerms query"
  let ?rel = "relevance engine ?terms"
  let ?mk = "\<lambda>c. \<lparr>chunk = c, score = ?rel c\<rparr>"
  from assms False obtain items where
    items: "scoreChunks engine ?terms chunks = Inr items" and res: "res = map chunk (topChunks items)"
    by (auto simp: retrieveRelevantContent_def Let_def split: sum.splits)
  have im: "items = map ?mk chunks" using items by (rule scoreChunks_map)
  note tp = topChunks_props[where rel = ?rel and cs = chunks, folded im]
  have len: "length res \<le> 3" using tp(1) by (simp add: res)
  have mem: "\<forall>c\<in>set res. c \<in> set chunks
          \<and> (\<exists>n. scoreLoop engine (toLowerCase c) ?terms 0 = Inr n \<and> 0 < n)"
  proof
    fix c assume "c \<in> set res"
    then obtain item where it: "item \<in> set (topChunks items)" "c = chunk item"
      by (auto simp: res)
    with tp(2) have c: "c \<in> set chunks" "0 < ?rel c" by auto
    from scoreChunks_scores[OF items c(1)] obtain n
      where n: "scoreLoop engine (toLowerCase c) ?terms 0 = Inr n" by blast
    with c(2) have "0 < n" by (simp add: relevance_def)
    with c(1) n show "c \<in> set chunks
          \<and> (\<exists>n. scoreLoop engine (toLowerCase c) ?terms 0 = Inr n \<and> 0 < n)" by blast
  qed
  have "sorted_wrt (\<lambda>a b. ?rel (chunk b) \<le> ?rel (chunk a)) (topChunks items)"
  proof (rule sorted_wrt_mono_rel[OF _ tp(3)])
    fix a b
    assume "a \<in> set (topChunks items)" "b \<in> set (topChunks items)" "score b \<le> score a"
    with tp(2) show "?rel (chunk b) \<le> ?rel (chunk a)" by simp
  qed
  then have srt: "sorted_wrt (\<lambda>a b. ?rel b \<le> ?rel a) res"
    by (simp add: res sorted_wrt_map)
  have stb: "\<forall>k. prefix (filter (\<lambda>c. ?rel c = k) res) (filter (\<lambda>c. ?rel c = k) chunks)"
    using tp(4) by (simp add: res)
  from len mem srt stb show ?thesis by blast
qed

theorem retrieve_top3_witness:
  "retrieveRelevantContent nullEngine
     [''one policy'', ''policy policy Policy'', ''none'', ''x policy y policy'',
      ''policy a policy'', ''policy''] ''the policy?''
     = Inr [''policy policy Policy'', ''x policy y policy'', ''policy a policy'']
   \<and> length [''policy policy Policy'', ''x policy y policy'', ''policy a policy''] \<le> 3
   \<and> sorted_wrt (\<lambda>a b. relevance nullEngine (queryTerms ''the policy?'') b
                         \<le> relevance nullEngine (queryTerms ''the policy?'') a)
        [''policy policy Policy'', ''x policy y policy'', ''policy a policy'']"
proof -
  have h: "retrieveRelevantContent nullEngine
     [''one policy'', ''policy policy Policy'', ''none'', ''x policy y policy'',
      ''policy a policy'', ''policy''] ''the policy?''
     = Inr [''policy policy Policy'', ''x policy y policy'', ''policy a policy'']"
    by code_simp
  from retrieve_top3[OF h] h show ?thesis by blast
qed

section \<open>The score against the literal count\<close>

text \<open>
  For terms without pattern characters the score of the code is the literal count of the
  specification: the pattern of such a term matches exactly the case-insensitive
  occurrences of the term.
\<close>

lemma toLowerChar_canonicalize: "toLowerChar (canonicalize (Char b0 b1 b2 b3 b4 b5 b6 b7)) = toLowerChar (Char b0 b1 b2 b3 b4 b5 b6 b7)"
  by (cases b0; cases b1; cases b2; cases b3; cases b4; cases b5; cases b6; cases b7;
      simp add: toLowerChar_bits canonicalize_bits)

lemma canonicalize_toLowerChar: "canonicalize (toLowerChar (Char b0 b1 b2 b3 b4 b5 b6 b7)) = canonicalize (Char b0 b1 b2 b3 b4 b5 b6 b7)"
  by (cases b0; cases b1; cases b2; cases b3; cases b4; cases b5; cases b6; cases b7;
      simp add: toLowerChar_bits canonicalize_bits)

lemma canonicalize_eq_iff: "canonicalize a = canonicalize b \<longleftrightarrow> toLowerChar a = toLowerChar b"
proof
  assume "canonicalize a = canonicalize b"
  then have "toLowerChar (canonicalize a) = toLowerChar (canonicalize b)" by simp
  then show "toLowerChar a = toLowerChar b"
    by (cases a; cases b) (simp only: toLowerChar_canonicalize)
next
  assume "toLowerChar a = toLowerChar b"
  then have "canonicalize (toLowerChar a) = canonicalize (toLowerChar b)" by simp
  then show "canonicalize a = canonicalize b"
    by (cases a; cases b) (simp only: canonicalize_toLowerChar)
qed

lemma splitAlternatives_literal:
  "CHR ''|'' \<notin> set t \<Longrightarrow> splitAlternatives t = [t]"
  by (induction t) auto

lemma parseAlternative_literal:
  "\<forall>c\<in>set t. c \<notin> set ''*+^$'' \<Longrightarrow> parseAlternative t = Some (map (\<lambda>c. Atom c Once) t)"
proof (induction t rule: parseAlternative.induct)
  case 1
  then show ?case by simp
next
  case (2 c cs)
  then show ?case by (cases cs) auto
qed

lemma parsePattern_literal:
  assumes "literalTerm t"
  shows "inFragment t" and "parsePattern t = Some [map (\<lambda>c. Atom c Once) t]"
proof -
  from assms show "inFragment t"
    by (auto simp: literalTerm_def inFragment_def patternChars_def)
  from assms have "CHR ''|'' \<notin> set t" "\<forall>c\<in>set t. c \<notin> set ''*+^$''"
    by (auto simp: literalTerm_def patternChars_def)
  then show "parsePattern t = Some [map (\<lambda>c. Atom c Once) t]"
    by (simp add: parsePattern_def splitAlternatives_literal parseAlternative_literal)
qed

lemma matchTerms_literal:
  "matchTerms (map (\<lambda>c. Atom c Once) t) i s
     = (if startsWithIgnoreCase t s then Some (length t) else None)"
proof (induction t arbitrary: i s)
  case Nil
  then show ?case by simp
next
  case (Cons c t)
  then show ?case
    by (cases s) (auto simp: canonicalize_eq_iff)
qed

lemma countMatches_literal:
  "countMatches [map (\<lambda>c. Atom c Once) t] i s = literalOccurrences t s"
proof (induction t s arbitrary: i rule: literalOccurrences.induct)
  case (1 t)
  then show ?case by (cases t) (simp_all add: matchTerms_literal)
next
  case (2 t x xs)
  show ?case
  proof (cases "startsWithIgnoreCase t (x # xs)")
    case True
    show ?thesis
    proof (cases "t = []")
      case True
      with 2(1)[of "Suc i"] show ?thesis by simp
    next
      case False
      then have m: "max (Suc 0) (length t) = length t" by (cases t) simp_all
      from True False 2(1)[OF True, of "i + length t"] show ?thesis
        by (simp add: matchTerms_literal m del: startsWithIgnoreCase.simps)
    qed
  next
    case False
    with 2(2)[OF False, of "Suc i"] show ?thesis
      by (simp add: matchTerms_literal del: startsWithIgnoreCase.simps)
  qed
qed

lemma startsWithIgnoreCase_toLowerCase:
  "startsWithIgnoreCase t (toLowerCase s) = startsWithIgnoreCase t s"
  by (induction t s rule: startsWithIgnoreCase.induct)
     (simp_all add: toLowerCase_def toLowerChar_idem)

lemma literalOccurrences_toLowerCase:
  "literalOccurrences t (toLowerCase s) = literalOccurrences t s"
proof (induction t s rule: literalOccurrences.induct)
  case (1 t)
  then show ?case by (simp add: toLowerCase_def)
next
  case (2 t x xs)
  have d: "drop n (toLowerCase ys) = toLowerCase (drop n ys)" for n ys
    by (simp add: toLowerCase_def drop_map)
  have c: "toLowerCase (x # xs) = toLowerChar x # toLowerCase xs"
    by (simp add: toLowerCase_def)
  have s: "startsWithIgnoreCase t (toLowerChar x # toLowerCase xs) = startsWithIgnoreCase t (x # xs)"
    using startsWithIgnoreCase_toLowerCase[of t "x # xs"] by (simp add: c)
  show ?case
  proof (cases "startsWithIgnoreCase t (x # xs)")
    case True
    from 2(1)[OF True] have "literalOccurrences t (drop (max 1 (length t)) (toLowerCase (x # xs)))
        = literalOccurrences t (drop (max 1 (length t)) (x # xs))" by (simp only: d)
    with True s show ?thesis by (simp add: c del: startsWithIgnoreCase.simps)
  next
    case False
    with 2(2)[OF False] s show ?thesis by (simp add: c del: startsWithIgnoreCase.simps)
  qed
qed

lemma matchCount_literal:
  "literalTerm t \<Longrightarrow> matchCount engine t (toLowerCase c) = Inr (literalOccurrences t c)"
  by (simp add: matchCount_def parsePattern_literal countMatches_literal
                literalOccurrences_toLowerCase)

lemma scoreLoop_literal:
  "\<forall>t\<in>set terms. literalTerm t \<Longrightarrow>
   scoreLoop engine (toLowerCase c) terms sc
     = Inr (sc + sum_list (map (\<lambda>t. literalOccurrences t c) terms))"
  by (induction terms arbitrary: sc) (simp_all add: matchCount_literal)

lemma literal_terms_score:
  "\<forall>t\<in>set terms. literalTerm t \<Longrightarrow>
   scoreChunk engine terms c = Inr \<lparr>chunk = c, score = literalScore terms c\<rparr>"
  by (simp add: scoreChunk_def scoreLoop_literal literalScore_def)

text \<open>So retrieval returns for every query whose terms have no pattern characters.\<close>

lemma scoreChunks_literal:
  "\<forall>t\<in>set terms. literalTerm t \<Longrightarrow>
   scoreChunks engine terms cs
     = Inr (map (\<lambda>c. \<lparr>chunk = c, score = literalScore terms c\<rparr>) cs)"
  by (induction cs) (simp_all add: literal_terms_score)

lemma retrieve_returns:
  "\<forall>t\<in>set (queryTerms query). literalTerm t \<Longrightarrow>
   \<exists>res. retrieveRelevantContent engine chunks query = Inr res"
  by (simp add: retrieveRelevantContent_def Let_def scoreChunks_literal)

text \<open>
  Claim C2. The claim: the score of a chunk is the sum over the terms of the
  non-overlapping, case-insensitive occurrences of the term as a literal substring. The
  code hands the term to \<^verbatim>\<open>new RegExp\<close> as a pattern: for the query \<^verbatim>\<open>salary+bonus\<close> a chunk
  that contains \<^verbatim>\<open>Salary+Bonus\<close> scores 0 where the literal count is 1, the chunk
  \<^verbatim>\<open>salaryyybonus\<close> scores 1 where the literal count is 0, and for the query
  \<^verbatim>\<open>What about C++?\<close> the constructor throws.
\<close>

theorem score_reads_term_as_pattern:
  "scoreChunk engine (queryTerms ''salary+bonus'') ''Salary+Bonus scheme''
     = Inr \<lparr>chunk = ''Salary+Bonus scheme'', score = 0\<rparr>
   \<and> literalScore (queryTerms ''salary+bonus'') ''Salary+Bonus scheme'' = 1
   \<and> scoreChunk engine (queryTerms ''salary+bonus'') ''salaryyybonus''
     = Inr \<lparr>chunk = ''salaryyybonus'', score = 1\<rparr>
   \<and> literalScore (queryTerms ''salary+bonus'') ''salaryyybonus'' = 0
   \<and> retrieveRelevantContent engine [''We use C++ and Java.''] ''What about C++?''
     = Inl (SyntaxError ''Invalid regular expression: /c++/gi: Nothing to repeat'')"
  by code_simp

section \<open>The session memory and the handler\<close>

text \<open>
  A call of \<^verbatim>\<open>loadPDF\<close> and a request during which nothing else runs, each written out as
  one computation.
\<close>

lemma loadPDF_unfold:
  "loadPDF env s =
     (let cached = (case pdfText s of None \<Rightarrow> [] | Some text \<Rightarrow> text)
      in if cached \<noteq> [] then (Inr cached, [], s)
         else if \<not> fileExists env then (Inl PdfNotFound, [], s)
         else (case readAndParse env of
                 Inl e \<Rightarrow> (Inl e, [ReadFileSync], s)
               | Inr text \<Rightarrow>
                   (Inr text, [ReadFileSync],
                    s\<lparr>pdfText := Some text, pdfChunks := chunkInto (pdfChunks s) text\<rparr>)))"
  by (simp add: loadPDF_def loadPDF_enter_def loadPDF_resume_def Let_def split: sum.splits)

lemma askModel_unfold:
  "askModel env req chat_history sources s =
     (let userMessage = message req;
          messages = [systemMessage (ragFlag req) sources] @ chat_history
                     @ [\<lparr>role = User, content = userMessage\<rparr>]
      in case invoke env messages of
           Inl err \<Rightarrow> (errorResponse err, [Invoke messages], s)
         | Inr reply \<Rightarrow>
             (Json200 reply sources,
              [Invoke messages, SaveContext userMessage reply],
              s\<lparr>sessionMemories := (sessionMemories s)(requestSession req \<mapsto>
                   history s (requestSession req)
                   @ [\<lparr>role = User, content = userMessage\<rparr>,
                      \<lparr>role = Assistant, content = reply\<rparr>])\<rparr>))"
  by (simp add: askModel_def finishInvoke_def messagesFor_def Let_def split: sum.splits)

lemma complete_AwaitInvoke:
  "complete (AwaitInvoke env req h sources) s = finishInvoke env req h sources s"
  by (subst complete.simps) (simp split: prod.splits)

lemma startInvoke_complete:
  "(case startInvoke env req h sources of
      (Finished resp, fx) \<Rightarrow> (resp, fx, s)
    | (Pending t, fx) \<Rightarrow> (case complete t s of (resp, fx', s2) \<Rightarrow> (resp, fx @ fx', s2)))
   = askModel env req h sources s"
  by (simp add: startInvoke_def complete_AwaitInvoke askModel_def split: prod.splits)

lemma afterLoad_complete:
  "(case afterLoad env req h loaded s of
      (Finished resp, fx) \<Rightarrow> (resp, fx, s)
    | (Pending t, fx) \<Rightarrow> (case complete t s of (resp, fx', s2) \<Rightarrow> (resp, fx @ fx', s2)))
   = (case loaded of
        Inl err \<Rightarrow> (errorResponse err, [], s)
      | Inr doc \<Rightarrow>
          (case retrieveRelevantContent (regexpEngine env) (pdfChunks s) (message req) of
             Inl err \<Rightarrow> (errorResponse err, [Retrieve (message req)], s)
           | Inr sources \<Rightarrow>
               (case askModel env req h sources s of
                  (resp, fx', s3) \<Rightarrow> (resp, Retrieve (message req) # fx', s3))))"
  by (simp add: afterLoad_def startInvoke_def complete_AwaitInvoke askModel_def
           split: prod.splits sum.splits)

lemma complete_AwaitParse:
  "complete (AwaitParse env req h) s =
     (case loadPDF_resume env s of
        (loaded, s1) \<Rightarrow>
          (case afterLoad env req h loaded s1 of
             (Finished resp, fx) \<Rightarrow> (resp, fx, s1)
           | (Pending t, fx) \<Rightarrow> (case complete t s1 of (resp, fx', s2) \<Rightarrow> (resp, fx @ fx', s2))))"
  by (subst complete.simps) (simp split: prod.splits progress.splits)

lemma chat_unfold:
  "chat env req s =
     (case getSessionMemory (requestSession req) s of
        (None, s1) \<Rightarrow>
          (errorResponse (TypeError ''memory.loadMemoryVariables is not a function''), [], s1)
      | (Some chat_history, s1) \<Rightarrow>
          if ragFlag req then
            (case loadPDF env s1 of
               (Inl err, fx, s2) \<Rightarrow> (errorResponse err, LoadPDF # fx, s2)
             | (Inr text, fx, s2) \<Rightarrow>
                 (case retrieveRelevantContent (regexpEngine env) (pdfChunks s2) (message req) of
                    Inl err \<Rightarrow>
                      (errorResponse err, LoadPDF # fx @ [Retrieve (message req)], s2)
                  | Inr sources \<Rightarrow>
                      (case askModel env req chat_history sources s2 of
                         (resp, fx', s3) \<Rightarrow>
                           (resp, LoadPDF # fx @ [Retrieve (message req)] @ fx', s3))))
          else askModel env req chat_history [] s1)"
proof (cases "getSessionMemory (requestSession req) s")
  case (Pair ho s1)
  show ?thesis
  proof (cases ho)
    case None
    with Pair show ?thesis by (simp add: chat_def chatStart_def)
  next
    case (Some h)
    show ?thesis
    proof (cases "ragFlag req")
      case False
      have "chat env req s =
          (case startInvoke env req h [] of
             (Finished resp, fx) \<Rightarrow> (resp, fx, s1)
           | (Pending t, fx) \<Rightarrow> (case complete t s1 of (resp, fx', s2) \<Rightarrow> (resp, fx @ fx', s2)))"
        using Pair Some False
        by (simp add: chat_def chatStart_def split: prod.splits progress.splits)
      with Pair Some False show ?thesis by (simp add: startInvoke_complete)
    next
      case True
      obtain st lfx where e: "loadPDF_enter env s1 = (st, lfx)" by (cases "loadPDF_enter env s1")
      show ?thesis
      proof (cases st)
        case (Returned loaded)
        have "chat env req s =
          (case (case afterLoad env req h loaded s1 of
                   (Finished resp, fx) \<Rightarrow> (resp, fx, s1)
                 | (Pending t, fx) \<Rightarrow> (case complete t s1 of (resp, fx', s2) \<Rightarrow> (resp, fx @ fx', s2)))
           of (resp, fx, s2) \<Rightarrow> (resp, LoadPDF # lfx @ fx, s2))"
          using Pair Some True e Returned
          by (simp add: chat_def chatStart_def split: prod.splits progress.splits)
        with Pair Some True e Returned show ?thesis
          by (simp add: afterLoad_complete loadPDF_def split: prod.splits sum.splits)
      next
        case AwaitingParse
        have "chat env req s =
          (case complete (AwaitParse env req h) s1 of
             (resp, fx, s2) \<Rightarrow> (resp, LoadPDF # lfx @ fx, s2))"
          using Pair Some True e AwaitingParse
          by (simp add: chat_def chatStart_def split: prod.splits progress.splits)
        also have "complete (AwaitParse env req h) s1 =
           (case loadPDF_resume env s1 of
              (loaded, s2) \<Rightarrow>
                (case loaded of
                   Inl err \<Rightarrow> (errorResponse err, [], s2)
                 | Inr doc \<Rightarrow>
                     (case retrieveRelevantContent (regexpEngine env) (pdfChunks s2) (message req) of
                        Inl err \<Rightarrow> (errorResponse err, [Retrieve (message req)], s2)
                      | Inr sources \<Rightarrow>
                          (case askModel env req h sources s2 of
                             (resp, fx', s3) \<Rightarrow> (resp, Retrieve (message req) # fx', s3)))))"
          by (simp add: complete_AwaitParse afterLoad_complete)
        finally show ?thesis using Pair Some True e AwaitingParse
          by (simp add: loadPDF_def split: prod.splits sum.splits)
      qed
    qed
  qed
qed

lemma getSessionMemory_Some:
  assumes "getSessionMemory sid s = (Some h, s1)"
  shows "h = history s sid" and "history s1 = history s"
    and "pdfText s1 = pdfText s" and "pdfChunks s1 = pdfChunks s"
    and "sessionMemories s1 sid = Some h"
  using assms
  by (auto simp: getSessionMemory_def history_def fun_eq_iff split: if_splits option.splits)

lemma getSessionMemory_None:
  assumes "getSessionMemory sid s = (None, s1)"
  shows "s1 = s"
  using assms by (auto simp: getSessionMemory_def split: if_splits option.splits)

lemma loadPDF_sessions:
  assumes "loadPDF env s = (r, fx, s')"
  shows "sessionMemories s' = sessionMemories s"
  using assms by (auto simp: loadPDF_unfold Let_def split: if_splits sum.splits)

lemma loadPDF_effects:
  assumes "loadPDF env s = (r, fx, s')"
  shows "set fx \<subseteq> {ReadFileSync}"
  using assms by (auto simp: loadPDF_unfold Let_def split: if_splits sum.splits)

lemma loadPDF_hit:
  assumes "pdfText s = Some doc" "doc \<noteq> []"
  shows "loadPDF env s = (Inr doc, [], s)"
  using assms by (simp add: loadPDF_unfold)

lemma loadPDF_stores:
  assumes "loadPDF env s = (Inr doc, fx, s')" "doc \<noteq> []"
  shows "pdfText s' = Some doc"
  using assms by (auto simp: loadPDF_unfold Let_def split: if_splits sum.splits option.splits)

lemma history_cong: "sessionMemories s' = sessionMemories s \<Longrightarrow> history s' = history s"
  by (simp add: history_def fun_eq_iff)

lemma isErrorResponse_errorResponse [simp]: "isErrorResponse (errorResponse err)"
  by (simp add: errorResponse_def)

text \<open>What \<open>askModel\<close> does to the history, to the effects and to the document.\<close>

lemma askModel_history:
  assumes "askModel env req h sources s = (resp, fx, s')"
    and "h = history s (requestSession req)"
  shows "history s' sid = history s sid @
           (case resp of
              Json200 reply srcs \<Rightarrow>
                if requestSession req = sid then turnMessages (message req, reply) else []
            | Json500 e m r \<Rightarrow> [])"
  using assms
  by (auto simp: askModel_unfold Let_def history_def errorResponse_def turnMessages_def
           split: sum.splits)

lemma askModel_result:
  assumes "askModel env req h sources s = (resp, fx, s')"
  shows "\<exists>ms. Invoke ms \<in> set fx \<and>
           (case invoke env ms of
              Inl err \<Rightarrow> resp = errorResponse err \<and> fx = [Invoke ms] \<and> s' = s
            | Inr reply \<Rightarrow> resp = Json200 reply sources
                 \<and> fx = [Invoke ms, SaveContext (message req) reply])"
  using assms by (auto simp: askModel_unfold Let_def split: sum.splits)

lemma askModel_pdf:
  assumes "askModel env req h sources s = (resp, fx, s')"
  shows "pdfText s' = pdfText s \<and> pdfChunks s' = pdfChunks s
         \<and> set fx \<inter> ({LoadPDF, ReadFileSync} \<union> range Retrieve) = {}"
  using assms by (auto simp: askModel_unfold Let_def split: sum.splits)

text \<open>
  The paths through the handler: a session name inherited from \<^verbatim>\<open>Object.prototype\<close>, no
  retrieval, a failed load, a failed retrieval, and retrieval followed by the model.
\<close>

lemma chat_cases:
  assumes c: "chat env req s = (resp, fx, s')"
  obtains
    (proto) "requestSession req \<in> set objectPrototypeKeys" "isErrorResponse resp" "fx = []" "s' = s"
  | (norag) s1 where "requestSession req \<notin> set objectPrototypeKeys" "\<not> ragFlag req"
      "getSessionMemory (requestSession req) s = (Some (history s (requestSession req)), s1)"
      "askModel env req (history s (requestSession req)) [] s1 = (resp, fx, s')"
  | (loadfail) s1 err lfx where "requestSession req \<notin> set objectPrototypeKeys" "ragFlag req"
      "getSessionMemory (requestSession req) s = (Some (history s (requestSession req)), s1)"
      "loadPDF env s1 = (Inl err, lfx, s')" "resp = errorResponse err" "fx = LoadPDF # lfx"
  | (retrievefail) s1 doc err lfx where "requestSession req \<notin> set objectPrototypeKeys" "ragFlag req"
      "getSessionMemory (requestSession req) s = (Some (history s (requestSession req)), s1)"
      "loadPDF env s1 = (Inr doc, lfx, s')"
      "retrieveRelevantContent (regexpEngine env) (pdfChunks s') (message req) = Inl err"
      "resp = errorResponse err" "fx = LoadPDF # lfx @ [Retrieve (message req)]"
  | (rag) s1 s2 doc lfx sources afx where "requestSession req \<notin> set objectPrototypeKeys" "ragFlag req"
      "getSessionMemory (requestSession req) s = (Some (history s (requestSession req)), s1)"
      "loadPDF env s1 = (Inr doc, lfx, s2)"
      "retrieveRelevantContent (regexpEngine env) (pdfChunks s2) (message req) = Inr sources"
      "askModel env req (history s (requestSession req)) sources s2 = (resp, afx, s')"
      "fx = LoadPDF # lfx @ [Retrieve (message req)] @ afx"
proof (cases "getSessionMemory (requestSession req) s")
  case (Pair ho s1)
  show ?thesis
  proof (cases ho)
    case None
    with Pair have k: "requestSession req \<in> set objectPrototypeKeys"
      by (auto simp: getSessionMemory_def split: if_splits option.splits)
    from c Pair None getSessionMemory_None[of "requestSession req" s s1]
    have "isErrorResponse resp" "fx = []" "s' = s" by (auto simp: chat_unfold)
    with k show ?thesis by (rule proto)
  next
    case (Some h)
    with Pair have k: "requestSession req \<notin> set objectPrototypeKeys"
      by (auto simp: getSessionMemory_def split: if_splits option.splits)
    from getSessionMemory_Some(1)[OF Pair[unfolded Some]]
    have h: "h = history s (requestSession req)" .
    note g = Pair[unfolded Some h]
    show ?thesis
    proof (cases "ragFlag req")
      case False
      with c g have "askModel env req (history s (requestSession req)) [] s1 = (resp, fx, s')"
        by (simp add: chat_unfold)
      with k False g show ?thesis by (rule norag)
    next
      case True
      obtain r lfx s2 where l: "loadPDF env s1 = (r, lfx, s2)" by (cases "loadPDF env s1")
      show ?thesis
      proof (cases r)
        case (Inl err)
        with c g True l have "resp = errorResponse err" "fx = LoadPDF # lfx" "s' = s2"
          by (simp_all add: chat_unfold)
        with k True g l Inl show ?thesis by (auto intro: loadfail)
      next
        case (Inr doc)
        note l' = l[unfolded Inr]
        show ?thesis
        proof (cases "retrieveRelevantContent (regexpEngine env) (pdfChunks s2) (message req)")
          case (Inl err)
          with c g True l' have "resp = errorResponse err"
            "fx = LoadPDF # lfx @ [Retrieve (message req)]" "s' = s2"
            by (simp_all add: chat_unfold)
          with k True g l' Inl show ?thesis by (auto intro: retrievefail)
        next
          case (Inr sources)
          obtain resp' afx s3
            where a: "askModel env req (history s (requestSession req)) sources s2 = (resp', afx, s3)"
            by (cases "askModel env req (history s (requestSession req)) sources s2")
          with c g True l' Inr have "resp = resp'" "s' = s3"
            "fx = LoadPDF # lfx @ [Retrieve (message req)] @ afx"
            by (simp_all add: chat_unfold)
          with k True g l' Inr a show ?thesis by (auto intro: rag)
        qed
      qed
    qed
  qed
qed

text \<open>
  A request appends its message and the reply to the history of its session when it is
  answered with a reply, and changes no history otherwise.
\<close>

lemma chat_history:
  assumes c: "chat env req s = (resp, fx, s')"
  shows "history s' sid = history s sid @
           (case resp of
              Json200 reply srcs \<Rightarrow>
                if requestSession req = sid then turnMessages (message req, reply) else []
            | Json500 e m r \<Rightarrow> [])"
  using c
proof (cases rule: chat_cases)
  case proto
  then show ?thesis by (cases resp) simp_all
next
  case (norag s1)
  from askModel_history[OF norag(4), of sid] getSessionMemory_Some[OF norag(3)]
  show ?thesis by simp
next
  case (loadfail s1 err lfx)
  from loadPDF_sessions[OF loadfail(4)] have "history s' = history s1" by (rule history_cong)
  with getSessionMemory_Some(2)[OF loadfail(3)] loadfail(5) show ?thesis
    by (simp add: errorResponse_def)
next
  case (retrievefail s1 doc err lfx)
  from loadPDF_sessions[OF retrievefail(4)] have "history s' = history s1" by (rule history_cong)
  with getSessionMemory_Some(2)[OF retrievefail(3)] retrievefail(6) show ?thesis
    by (simp add: errorResponse_def)
next
  case (rag s1 s2 doc lfx sources afx)
  from loadPDF_sessions[OF rag(4)] have "history s2 = history s1" by (rule history_cong)
  with getSessionMemory_Some(2)[OF rag(3)] have "history s2 = history s" by simp
  with askModel_history[OF rag(6), of sid] show ?thesis by simp
qed

text \<open>
  Claim C6. For every chat request, if the call of the model fails, then the stored
  history of every session is after the request what it was before, no exchange is saved,
  and the caller gets the error response.
\<close>

theorem model_failure_keeps_history:
  assumes c: "chat env req s = (resp, fx, s')"
    and f: "\<forall>ms. Invoke ms \<in> set fx \<longrightarrow> isl (invoke env ms)"
  shows "(\<forall>sid. history s' sid = history s sid)
    \<and> isErrorResponse resp
    \<and> (\<forall>u a. SaveContext u a \<notin> set fx)"
proof -
  have ask: "isErrorResponse resp' \<and> (\<forall>u a. SaveContext u a \<notin> set afx)"
    if a: "askModel env req h sources t = (resp', afx, t')" and sub: "set afx \<subseteq> set fx"
    for h sources t resp' afx t'
  proof -
    from askModel_result[OF a] obtain ms where ms: "Invoke ms \<in> set afx"
      and r: "case invoke env ms of
              Inl err \<Rightarrow> resp' = errorResponse err \<and> afx = [Invoke ms] \<and> t' = t
            | Inr reply \<Rightarrow> resp' = Json200 reply sources
                 \<and> afx = [Invoke ms, SaveContext (message req) reply]" by blast
    from ms sub f have "isl (invoke env ms)" by blast
    with r show ?thesis by (cases "invoke env ms") auto
  qed
  from c have e: "isErrorResponse resp \<and> (\<forall>u a. SaveContext u a \<notin> set fx)"
  proof (cases rule: chat_cases)
    case proto
    then show ?thesis by simp
  next
    case (norag s1)
    from ask[OF norag(4)] show ?thesis by simp
  next
    case (loadfail s1 err lfx)
    with loadPDF_effects[OF loadfail(4)] show ?thesis by auto
  next
    case (retrievefail s1 doc err lfx)
    with loadPDF_effects[OF retrievefail(4)] show ?thesis by auto
  next
    case (rag s1 s2 doc lfx sources afx)
    from ask[OF rag(6)] rag(7) have "isErrorResponse resp \<and> (\<forall>u a. SaveContext u a \<notin> set afx)"
      by auto
    with loadPDF_effects[OF rag(4)] rag(7) show ?thesis by auto
  qed
  then obtain e m r where "resp = Json500 e m r" by (cases resp) auto
  with chat_history[OF c] have "\<forall>sid. history s' sid = history s sid" by simp
  with e show ?thesis by blast
qed

theorem model_failure_keeps_history_witness:
  "history oneTurnState ''s1''
     = [\<lparr>role = User, content = ''How long is vacation?''\<rparr>,
        \<lparr>role = Assistant, content = ''15 days''\<rparr>]
   \<and> (\<forall>sid. history (snd (snd (chat failingEnv vacationRequest oneTurnState))) sid
             = history oneTurnState sid)
   \<and> isErrorResponse (fst (chat failingEnv vacationRequest oneTurnState))"
proof -
  let ?out = "chat failingEnv vacationRequest oneTurnState"
  have h: "history oneTurnState ''s1''
     = [\<lparr>role = User, content = ''How long is vacation?''\<rparr>,
        \<lparr>role = Assistant, content = ''15 days''\<rparr>]"
    by code_simp
  have c: "?out = (fst ?out, fst (snd ?out), snd (snd ?out))" by simp
  have f: "\<forall>ms. Invoke ms \<in> set (fst (snd ?out)) \<longrightarrow> isl (invoke failingEnv ms)"
    by (simp add: failingEnv_def)
  from model_failure_keeps_history[OF c f] h show ?thesis by blast
qed

section \<open>The history of a session over a run\<close>

lemma serve_history:
  "serve evs s = (resps, s') \<Longrightarrow>
   history s' sid = history s sid @ concat (map turnMessages (sessionTurns sid (map snd evs) resps))"
proof (induction evs arbitrary: s resps)
  case Nil
  then show ?case by simp
next
  case (Cons ev evs)
  obtain env req where ev: "ev = (env, req)" by (cases ev)
  obtain resp fx s1 where c: "chat env req s = (resp, fx, s1)" by (cases "chat env req s")
  obtain rs s2 where r: "serve evs s1 = (rs, s2)" by (cases "serve evs s1")
  from Cons.prems ev c r have eq: "resps = resp # rs" "s' = s2" by simp_all
  from r eq have "serve evs s1 = (rs, s')" by simp
  from Cons.IH[OF this]
  have ih: "history s' sid =
            history s1 sid @ concat (map turnMessages (sessionTurns sid (map snd evs) rs))" .
  from chat_history[OF c, of sid] ih eq ev show ?case
    by (cases resp) simp_all
qed

lemma sessionTurns_unreferenced:
  "\<forall>req\<in>set reqs. requestSession req \<noteq> sid \<Longrightarrow> sessionTurns sid reqs resps = []"
  by (induction sid reqs resps rule: sessionTurns.induct) auto

lemma length_concat_turns: "length (concat (map turnMessages ts)) = 2 * length ts"
  by (induction ts) (simp_all add: turnMessages_def)

text \<open>
  Claim C7. After any run of the server from its initial state, the stored history of a
  session is the sequence of the user message and the assistant reply of its successful
  turns, in the order of the requests; so after N successful turns it has length 2N, and
  the history of a session that no request has addressed is empty.
\<close>

theorem session_history:
  assumes "serve evs initialState = (resps, s)"
  shows "history s sid = concat (map turnMessages (sessionTurns sid (map snd evs) resps))
     \<and> length (history s sid) = 2 * length (sessionTurns sid (map snd evs) resps)
     \<and> ((\<forall>ev\<in>set evs. requestSession (snd ev) \<noteq> sid) \<longrightarrow> history s sid = [])"
proof -
  have h0: "history initialState sid = []" by (simp add: history_def initialState_def)
  from serve_history[OF assms, of sid] h0
  have 1: "history s sid = concat (map turnMessages (sessionTurns sid (map snd evs) resps))" by simp
  then have 2: "length (history s sid) = 2 * length (sessionTurns sid (map snd evs) resps)"
    by (simp add: length_concat_turns)
  have 3: "(\<forall>ev\<in>set evs. requestSession (snd ev) \<noteq> sid) \<longrightarrow> history s sid = []"
    using 1 sessionTurns_unreferenced[of "map snd evs" sid resps] by simp
  from 1 2 3 show ?thesis by blast
qed

theorem session_history_witness:
  "fst (serve threeRequests initialState)
     = [Json200 ''15 days'' [''Vacation is 15 days.''],
        Json500 ''Model call failed'' ''503 Service Unavailable''
          ''Sorry, I encountered an error. Please try again.'',
        Json200 ''15 days'' [''Vacation is 15 days.'']]
   \<and> length (history (snd (serve threeRequests initialState)) ''s1'') = 4
   \<and> history (snd (serve threeRequests initialState)) ''s2'' = []"
proof -
  let ?run = "serve threeRequests initialState"
  have r: "fst ?run
     = [Json200 ''15 days'' [''Vacation is 15 days.''],
        Json500 ''Model call failed'' ''503 Service Unavailable''
          ''Sorry, I encountered an error. Please try again.'',
        Json200 ''15 days'' [''Vacation is 15 days.'']]"
    by code_simp
  have h: "?run = (fst ?run, snd ?run)" by simp
  have rs: "requestSession vacationRequest = ''s1''"
    by (simp add: requestSession_def vacationRequest_def)
  have t: "length (sessionTurns ''s1'' (map snd threeRequests) (fst ?run)) = 2"
    unfolding r by (simp add: threeRequests_def rs)
  have u: "\<forall>ev\<in>set threeRequests. requestSession (snd ev) \<noteq> ''s2''"
    by (simp add: threeRequests_def rs)
  from session_history[OF h, of "''s1''"]
  have "length (history (snd ?run) ''s1'')
        = 2 * length (sessionTurns ''s1'' (map snd threeRequests) (fst ?run))" by blast
  with t have a: "length (history (snd ?run) ''s1'') = 4" by simp
  from session_history[OF h, of "''s2''"] u
  have b: "history (snd ?run) ''s2'' = []" by blast
  from r a b show ?thesis by blast
qed

section \<open>Loading the document once\<close>

lemma chat_keeps_document:
  assumes c: "chat env req s = (resp, fx, s')" and p: "pdfText s = Some doc" "doc \<noteq> []"
  shows "pdfText s' = Some doc \<and> pdfChunks s' = pdfChunks s \<and> ReadFileSync \<notin> set fx"
  using c
proof (cases rule: chat_cases)
  case proto
  with p show ?thesis by simp
next
  case (norag s1)
  with getSessionMemory_Some[OF norag(3)] askModel_pdf[OF norag(4)] p show ?thesis by auto
next
  case (loadfail s1 err lfx)
  from getSessionMemory_Some[OF loadfail(3)] p have "pdfText s1 = Some doc" by simp
  from loadPDF_hit[OF this p(2), of env] loadfail(4) show ?thesis by simp
next
  case (retrievefail s1 d err lfx)
  from getSessionMemory_Some[OF retrievefail(3)] p
  have s1: "pdfText s1 = Some doc" "pdfChunks s1 = pdfChunks s" by simp_all
  from loadPDF_hit[OF s1(1) p(2), of env] retrievefail(4) have "s' = s1" "lfx = []" by simp_all
  with s1 retrievefail(7) show ?thesis by simp
next
  case (rag s1 s2 d lfx sources afx)
  from getSessionMemory_Some[OF rag(3)] p
  have s1: "pdfText s1 = Some doc" "pdfChunks s1 = pdfChunks s" by simp_all
  from loadPDF_hit[OF s1(1) p(2), of env] rag(4) have "s2 = s1" "lfx = []" by simp_all
  with s1 rag(7) askModel_pdf[OF rag(6)] show ?thesis by auto
qed

lemma serve_keeps_document:
  "serve evs s = (resps, t) \<Longrightarrow> pdfText s = Some doc \<Longrightarrow> doc \<noteq> [] \<Longrightarrow>
   pdfText t = Some doc \<and> pdfChunks t = pdfChunks s"
proof (induction evs arbitrary: s resps)
  case Nil
  then show ?case by simp
next
  case (Cons ev evs)
  obtain env req where ev: "ev = (env, req)" by (cases ev)
  obtain resp fx s1 where c: "chat env req s = (resp, fx, s1)" by (cases "chat env req s")
  obtain rs s2 where r: "serve evs s1 = (rs, s2)" by (cases "serve evs s1")
  from Cons.prems(1) ev c r have "t = s2" by simp
  with r have r': "serve evs s1 = (rs, t)" by simp
  from chat_keeps_document[OF c Cons.prems(2,3)]
  have k: "pdfText s1 = Some doc" "pdfChunks s1 = pdfChunks s" by simp_all
  from Cons.IH[OF r' k(1) Cons.prems(3)] k(2) show ?case by simp
qed

text \<open>
  Where the cache does hold: when a call of \<^verbatim>\<open>loadPDF\<close> has run to its end with nothing in
  between and has given a non-empty text, then after any run of requests that do not
  overlap every call of \<^verbatim>\<open>loadPDF\<close>, in any environment, reads no file, leaves the state and
  so the chunks unchanged and returns the same text, and no such request reads the file.
\<close>

lemma loadPDF_once:
  assumes l: "loadPDF env s = (Inr doc, fx, s')" and d: "doc \<noteq> []"
    and run: "serve evs s' = (resps, t)"
  shows "loadPDF env' t = (Inr doc, [], t)
    \<and> pdfChunks t = pdfChunks s'
    \<and> (\<forall>req resp fx' t'. chat env' req t = (resp, fx', t') \<longrightarrow> ReadFileSync \<notin> set fx')"
proof -
  note st = loadPDF_stores[OF l d]
  from serve_keeps_document[OF run st d]
  have k: "pdfText t = Some doc" "pdfChunks t = pdfChunks s'" by simp_all
  from chat_keeps_document[OF _ k(1) d] loadPDF_hit[OF k(1) d, of env'] k(2)
  show ?thesis by blast
qed

text \<open>
  Why the text has to be non-empty there: were the parse to give the empty string, it
  would be stored, but it is falsy in the test of the cache, and the next call would read
  the file again.
\<close>

lemma loadPDF_empty_text_reread:
  "fst (loadPDF emptyTextEnv initialState) = Inr []
   \<and> fst (snd (loadPDF emptyTextEnv initialState)) = [ReadFileSync]
   \<and> fst (loadPDF emptyTextEnv (snd (snd (loadPDF emptyTextEnv initialState)))) = Inr []
   \<and> fst (snd (loadPDF emptyTextEnv (snd (snd (loadPDF emptyTextEnv initialState)))))
       = [ReadFileSync]"
  by (simp add: loadPDF_unfold emptyTextEnv_def handbookEnv_def initialState_def)

section \<open>Requests that do not overlap, as a case of the overlapping server\<close>

lemma chatStart_requestOf:
  "chatStart env req s = (Pending t, fx, s1) \<Longrightarrow> requestOf t = req"
  by (auto simp: chatStart_def afterLoad_def startInvoke_def
           split: prod.splits option.splits if_splits load_step.splits sum.splits)

lemma chatResume_Pending:
  "chatResume t s = (Pending t', fx, s1) \<Longrightarrow>
   requestOf t' = requestOf t \<and> (\<exists>env req h sources. t' = AwaitInvoke env req h sources)"
  by (cases t) (auto simp: afterLoad_def startInvoke_def split: prod.splits sum.splits)

lemma chatResume_AwaitInvoke:
  "\<exists>resp fx s1. chatResume (AwaitInvoke env req h sources) s = (Finished resp, fx, s1)"
  by (simp split: prod.splits)

text \<open>One request that arrives and goes on to its response while nothing else happens.\<close>

lemma overlap_one:
  "overlap (Arrive env req # Continue 0 # Continue 0 # evs) s [] =
     (case chat env req s of
        (resp, fx, s1) \<Rightarrow>
          (case overlap evs s1 [] of
             (answered, fx', s2, waiting) \<Rightarrow> ((req, resp) # answered, fx @ fx', s2, waiting)))"
proof -
  obtain p fx0 s0 where st: "chatStart env req s = (p, fx0, s0)"
    by (cases "chatStart env req s")
  show ?thesis
  proof (cases p)
    case (Finished resp)
    with st show ?thesis by (simp add: chat_def split: prod.splits)
  next
    case (Pending t)
    from chatStart_requestOf[OF st[unfolded Pending]] have rq: "requestOf t = req" .
    obtain p1 fx1 s1 where r1: "chatResume t s0 = (p1, fx1, s1)" by (cases "chatResume t s0")
    show ?thesis
    proof (cases p1)
      case (Finished resp)
      with r1 have "complete t s0 = (resp, fx1, s1)" by (subst complete.simps) simp
      with st Pending r1 Finished rq show ?thesis
        by (simp add: chat_def split: prod.splits)
    next
      case p1: (Pending t1)
      from chatResume_Pending[OF r1[unfolded p1]] rq obtain env1 req1 h1 src1
        where t1: "t1 = AwaitInvoke env1 req1 h1 src1" and rq1: "requestOf t1 = req" by auto
      from chatResume_AwaitInvoke[of env1 req1 h1 src1 s1] obtain resp fx2 s2
        where r2: "chatResume t1 s1 = (Finished resp, fx2, s2)" by (auto simp: t1)
      then have "complete t1 s1 = (resp, fx2, s2)" by (subst complete.simps) simp
      with r1 p1 have "complete t s0 = (resp, fx1 @ fx2, s2)" by (subst complete.simps) simp
      with st Pending r1 p1 r2 rq1 show ?thesis
        by (simp add: chat_def split: prod.splits)
    qed
  qed
qed

text \<open>
  The server of the requests that do not overlap is the overlapping server on the events
  in which every request goes on to its response before the next one arrives.
\<close>

lemma serve_overlap:
  "(case overlap (oneByOne reqs) s [] of
      (answered, fx, s', waiting) \<Rightarrow> (answered, s', waiting))
   = (case serve reqs s of (resps, s') \<Rightarrow> (zip (map snd reqs) resps, s', []))"
proof (induction reqs arbitrary: s)
  case Nil
  then show ?case by (simp add: oneByOne_def)
next
  case (Cons r reqs)
  obtain env req where r: "r = (env, req)" by (cases r)
  have o: "oneByOne ((env, req) # reqs)
           = Arrive env req # Continue 0 # Continue 0 # oneByOne reqs"
    by (simp add: oneByOne_def)
  obtain resp fx s1 where c: "chat env req s = (resp, fx, s1)" by (cases "chat env req s")
  from Cons.IH[of s1] show ?case unfolding r o overlap_one c
    by (simp add: c split: prod.splits)
qed

section \<open>Overlapping loads\<close>

text \<open>
  Claim C8. The claim: after the first successful load every later call of \<^verbatim>\<open>loadPDF\<close>
  reads no file and leaves the chunks as the first load produced them, so that the
  document is loaded at most once. The code tests the cache at line 61, waits for the
  parse at line 68 and writes the cache only afterwards, onto the shared \<^verbatim>\<open>pdfChunks\<close>. At
  two requests that arrive on a cold start before the parse of the first is over: both
  calls find the cache empty and read the file; the first stores the chunks of the text,
  the second stores the text again and pushes the same chunks once more; the first
  request is answered from one copy of the chunks, the second from two, and the chunks
  stay doubled.
\<close>

theorem overlapping_requests_load_twice:
  "loadPDF_enter handbookEnv initialState = (AwaitingParse, [ReadFileSync])
   \<and> pdfChunks (snd (loadPDF_resume handbookEnv initialState)) = [''Vacation is 15 days.'']
   \<and> pdfChunks (snd (loadPDF_resume handbookEnv (snd (loadPDF_resume handbookEnv initialState))))
       = [''Vacation is 15 days.'', ''Vacation is 15 days.'']
   \<and> (case overlap twoOverlapping initialState [] of
         (answered, fx, s, waiting) \<Rightarrow>
           (map snd answered, filter (\<lambda>e. e = ReadFileSync) fx, pdfChunks s, length waiting))
       = ([Json200 ''15 days'' [''Vacation is 15 days.''],
           Json200 ''15 days'' [''Vacation is 15 days.'', ''Vacation is 15 days.'']],
          [ReadFileSync, ReadFileSync],
          [''Vacation is 15 days.'', ''Vacation is 15 days.''], 0)"
  by code_simp

section \<open>The flag useRAG\<close>

text \<open>
  Claim C9, as stated: retrieval is skipped only when \<^verbatim>\<open>useRAG\<close> is explicitly \<^verbatim>\<open>false\<close>, and a
  request without the field has the document loaded and retrieval performed. The handler
  keeps any value of the field and tests its truthiness: the request with \<^verbatim>\<open>useRAG\<close> \<^verbatim>\<open>null\<close> is
  answered without load and retrieval, from the general system message. And the request
  without the field whose session is named \<^verbatim>\<open>constructor\<close> ends in the error response before
  the load.
\<close>

theorem falsy_useRAG_skips_retrieval:
  "useRAG nullFlagRequest = Some JNull
   \<and> fst (chat handbookEnv nullFlagRequest initialState) = Json200 ''15 days'' []
   \<and> fst (snd (chat handbookEnv nullFlagRequest initialState))
       = [Invoke [systemMessage False [], \<lparr>role = User, content = ''How long is vacation?''\<rparr>],
          SaveContext ''How long is vacation?'' ''15 days'']
   \<and> pdfText (snd (snd (chat handbookEnv nullFlagRequest initialState))) = None
   \<and> pdfChunks (snd (snd (chat handbookEnv nullFlagRequest initialState))) = []
   \<and> useRAG constructorRequest = None
   \<and> isErrorResponse (fst (chat handbookEnv constructorRequest initialState))
   \<and> fst (snd (chat handbookEnv constructorRequest initialState)) = []
   \<and> pdfText (snd (snd (chat handbookEnv constructorRequest initialState))) = None"
  by code_simp

text \<open>
  Claim C9, amended. A request without the field \<^verbatim>\<open>useRAG\<close> is handled exactly as the same
  request with \<^verbatim>\<open>useRAG\<close> true. Retrieval is in effect unless \<^verbatim>\<open>useRAG\<close> is present and falsy
  (\<^verbatim>\<open>false\<close>, \<^verbatim>\<open>null\<close>, \<^verbatim>\<open>0\<close> or the empty string). For a request whose session name is usable
  and that is handled with no other request in between:
  with retrieval in effect, on an empty cache with the file present and parsed the text is
  cached and its chunks are appended to the chunks, and every reply comes with the sources
  that the scoring and ranking of the cached chunks give for the message, the model having
  been invoked with the system message of these sources; with \<^verbatim>\<open>useRAG\<close> falsy neither
  \<^verbatim>\<open>loadPDF\<close> nor the retrieval is called, no file is read, text and chunks stay as they were,
  and every reply comes without sources, the model having been invoked with the general
  system message.
\<close>

theorem useRAG_default:
  "chat env (req\<lparr>useRAG := None\<rparr>) s = chat env (req\<lparr>useRAG := Some (JBool True)\<rparr>) s
   \<and> (ragFlag req \<longleftrightarrow>
        useRAG req \<notin> {Some (JBool False), Some JNull, Some (JNumber 0), Some (JString [])})
   \<and> (chat env req s = (resp, fx, s') \<and> requestSession req \<notin> set objectPrototypeKeys \<longrightarrow>
        (ragFlag req \<longrightarrow>
           ((pdfText s = None \<or> pdfText s = Some []) \<and> fileExists env
              \<and> readAndParse env = Inr doc \<longrightarrow>
                pdfText s' = Some doc \<and> pdfChunks s' = chunkInto (pdfChunks s) doc
                \<and> LoadPDF \<in> set fx \<and> ReadFileSync \<in> set fx)
         \<and> (\<forall>reply sources. resp = Json200 reply sources \<longrightarrow>
               (if queryTerms (message req) = [] then sources = []
                else \<exists>items.
                       scoreChunks (regexpEngine env) (queryTerms (message req)) (pdfChunks s')
                         = Inr items
                       \<and> sources = map chunk (topChunks items))
               \<and> Retrieve (message req) \<in> set fx
               \<and> Invoke (systemMessage True sources # history s (requestSession req)
                           @ [\<lparr>role = User, content = message req\<rparr>]) \<in> set fx))
      \<and> (\<not> ragFlag req \<longrightarrow>
           pdfText s' = pdfText s \<and> pdfChunks s' = pdfChunks s
           \<and> LoadPDF \<notin> set fx \<and> ReadFileSync \<notin> set fx \<and> (\<forall>q. Retrieve q \<notin> set fx)
           \<and> (\<forall>reply sources. resp = Json200 reply sources \<longrightarrow>
                 sources = []
                 \<and> Invoke (systemMessage False [] # history s (requestSession req)
                             @ [\<lparr>role = User, content = message req\<rparr>]) \<in> set fx)))"
proof -
  have rs: "requestSession (req\<lparr>useRAG := u\<rparr>) = requestSession req" for u
    by (simp add: requestSession_def)
  have ms: "message (req\<lparr>useRAG := u\<rparr>) = message req" for u
    by simp
  have rf: "ragFlag (req\<lparr>useRAG := None\<rparr>) = ragFlag (req\<lparr>useRAG := Some (JBool True)\<rparr>)"
    by (simp add: ragFlag_def)
  have mf: "messagesFor (req\<lparr>useRAG := None\<rparr>) h srcs
            = messagesFor (req\<lparr>useRAG := Some (JBool True)\<rparr>) h srcs" for h srcs
    unfolding messagesFor_def rf ms by (rule refl)
  have a: "askModel env (req\<lparr>useRAG := None\<rparr>) h srcs t
           = askModel env (req\<lparr>useRAG := Some (JBool True)\<rparr>) h srcs t" for h srcs t
    unfolding askModel_def finishInvoke_def mf rs ms by (rule refl)
  have 1: "chat env (req\<lparr>useRAG := None\<rparr>) s = chat env (req\<lparr>useRAG := Some (JBool True)\<rparr>) s"
    unfolding chat_unfold a rs rf ms by (rule refl)
  have 2: "ragFlag req \<longleftrightarrow>
        useRAG req \<notin> {Some (JBool False), Some JNull, Some (JNumber 0), Some (JString [])}"
  proof (cases "useRAG req")
    case None
    then show ?thesis by (simp add: ragFlag_def)
  next
    case (Some v)
    then show ?thesis by (cases v) (auto simp: ragFlag_def)
  qed
  have inv: "Invoke (messagesFor req h sources) \<in> set afx \<and> srcs = sources"
    if "askModel env req h sources t = (Json200 reply srcs, afx, t')" for h sources t reply srcs afx t'
    using that by (auto simp: askModel_def finishInvoke_def errorResponse_def split: sum.splits)
  have 3: "((pdfText s = None \<or> pdfText s = Some []) \<and> fileExists env
              \<and> readAndParse env = Inr doc \<longrightarrow>
                pdfText s' = Some doc \<and> pdfChunks s' = chunkInto (pdfChunks s) doc
                \<and> LoadPDF \<in> set fx \<and> ReadFileSync \<in> set fx)
         \<and> (\<forall>reply sources. resp = Json200 reply sources \<longrightarrow>
               (if queryTerms (message req) = [] then sources = []
                else \<exists>items.
                       scoreChunks (regexpEngine env) (queryTerms (message req)) (pdfChunks s')
                         = Inr items
                       \<and> sources = map chunk (topChunks items))
               \<and> Retrieve (message req) \<in> set fx
               \<and> Invoke (systemMessage True sources # history s (requestSession req)
                           @ [\<lparr>role = User, content = message req\<rparr>]) \<in> set fx)"
    if c: "chat env req s = (resp, fx, s')" and k: "requestSession req \<notin> set objectPrototypeKeys"
      and f: "ragFlag req"
  proof -
    have cold: "(pdfText s = None \<or> pdfText s = Some []) \<and> fileExists env
              \<and> readAndParse env = Inr doc \<longrightarrow>
                r = Inr doc \<and> pdfText t' = Some doc
                \<and> pdfChunks t' = chunkInto (pdfChunks s) doc \<and> ReadFileSync \<in> set lfx"
      if "loadPDF env t = (r, lfx, t')" "pdfText t = pdfText s" "pdfChunks t = pdfChunks s"
      for t r lfx t'
      using that by (auto simp: loadPDF_unfold)
    have ret: "(if queryTerms (message req) = [] then sources = []
                else \<exists>items.
                       scoreChunks (regexpEngine env) (queryTerms (message req)) cs = Inr items
                       \<and> sources = map chunk (topChunks items))"
      if "retrieveRelevantContent (regexpEngine env) cs (message req) = Inr sources" for cs sources
      using that by (auto simp: retrieveRelevantContent_def Let_def split: sum.splits if_splits)
    from c show ?thesis
    proof (cases rule: chat_cases)
      case proto
      with k show ?thesis by simp
    next
      case (norag s1)
      with f show ?thesis by simp
    next
      case (loadfail s1 err lfx)
      note g = getSessionMemory_Some[OF loadfail(3)]
      from cold[OF loadfail(4) g(3,4)]
      have "\<not> ((pdfText s = None \<or> pdfText s = Some []) \<and> fileExists env
              \<and> readAndParse env = Inr doc)" by blast
      with loadfail(5) show ?thesis by (auto simp: errorResponse_def)
    next
      case (retrievefail s1 d err lfx)
      note g = getSessionMemory_Some[OF retrievefail(3)]
      from cold[OF retrievefail(4) g(3,4)] retrievefail(7)
      have "(pdfText s = None \<or> pdfText s = Some []) \<and> fileExists env
              \<and> readAndParse env = Inr doc \<longrightarrow>
                pdfText s' = Some doc \<and> pdfChunks s' = chunkInto (pdfChunks s) doc
                \<and> LoadPDF \<in> set fx \<and> ReadFileSync \<in> set fx" by auto
      with retrievefail(6) show ?thesis by (auto simp: errorResponse_def)
    next
      case (rag s1 s2 d lfx sources afx)
      note g = getSessionMemory_Some[OF rag(3)]
      note ap = askModel_pdf[OF rag(6)]
      from cold[OF rag(4) g(3,4)] rag(7) ap
      have l: "(pdfText s = None \<or> pdfText s = Some []) \<and> fileExists env
              \<and> readAndParse env = Inr doc \<longrightarrow>
                pdfText s' = Some doc \<and> pdfChunks s' = chunkInto (pdfChunks s) doc
                \<and> LoadPDF \<in> set fx \<and> ReadFileSync \<in> set fx" by auto
      have r: "(if queryTerms (message req) = [] then srcs = []
                else \<exists>items.
                       scoreChunks (regexpEngine env) (queryTerms (message req)) (pdfChunks s')
                         = Inr items
                       \<and> srcs = map chunk (topChunks items))
               \<and> Retrieve (message req) \<in> set fx
               \<and> Invoke (systemMessage True srcs # history s (requestSession req)
                           @ [\<lparr>role = User, content = message req\<rparr>]) \<in> set fx"
        if j: "resp = Json200 reply srcs" for reply srcs
      proof -
        from inv[OF rag(6)[unfolded j]] have i: "Invoke (messagesFor req (history s (requestSession req)) sources) \<in> set afx"
          and e: "srcs = sources" by simp_all
        from ret[OF rag(5)] ap e have "(if queryTerms (message req) = [] then srcs = []
                else \<exists>items.
                       scoreChunks (regexpEngine env) (queryTerms (message req)) (pdfChunks s')
                         = Inr items
                       \<and> srcs = map chunk (topChunks items))" by simp
        moreover from i e f rag(7) have "Invoke (systemMessage True srcs # history s (requestSession req)
                           @ [\<lparr>role = User, content = message req\<rparr>]) \<in> set fx"
          by (simp add: messagesFor_def)
        moreover from rag(7) have "Retrieve (message req) \<in> set fx" by simp
        ultimately show ?thesis by blast
      qed
      from l r show ?thesis by blast
    qed
  qed
  have 4: "pdfText s' = pdfText s \<and> pdfChunks s' = pdfChunks s
           \<and> LoadPDF \<notin> set fx \<and> ReadFileSync \<notin> set fx \<and> (\<forall>q. Retrieve q \<notin> set fx)
           \<and> (\<forall>reply sources. resp = Json200 reply sources \<longrightarrow>
                 sources = []
                 \<and> Invoke (systemMessage False [] # history s (requestSession req)
                             @ [\<lparr>role = User, content = message req\<rparr>]) \<in> set fx)"
    if c: "chat env req s = (resp, fx, s')" and f: "\<not> ragFlag req"
  proof -
    from c show ?thesis
    proof (cases rule: chat_cases)
      case proto
      then show ?thesis by (cases resp) simp_all
    next
      case (norag s1)
      note g = getSessionMemory_Some[OF norag(3)]
      note ap = askModel_pdf[OF norag(4)]
      have "sources = [] \<and> Invoke (systemMessage False [] # history s (requestSession req)
                             @ [\<lparr>role = User, content = message req\<rparr>]) \<in> set fx"
        if j: "resp = Json200 reply sources" for reply sources
        using inv[OF norag(4)[unfolded j]] f by (simp add: messagesFor_def)
      with g ap show ?thesis by auto
    qed (use f in simp_all)
  qed
  from 1 2 3 4 show ?thesis by blast
qed

theorem useRAG_default_witness:
  "useRAG vacationRequest = None
   \<and> chat handbookEnv (vacationRequest\<lparr>useRAG := None\<rparr>) initialState
       = chat handbookEnv (vacationRequest\<lparr>useRAG := Some (JBool True)\<rparr>) initialState
   \<and> fst (chat handbookEnv vacationRequest initialState)
       = Json200 ''15 days'' [''Vacation is 15 days.'']
   \<and> pdfText (snd (snd (chat handbookEnv vacationRequest initialState)))
       = Some ''Vacation is 15 days.''
   \<and> pdfChunks (snd (snd (chat handbookEnv vacationRequest initialState)))
       = chunkInto [] ''Vacation is 15 days.''
   \<and> chunkInto [] ''Vacation is 15 days.'' = [''Vacation is 15 days.'']
   \<and> Invoke [systemMessage True [''Vacation is 15 days.''],
              \<lparr>role = User, content = ''How long is vacation?''\<rparr>]
       \<in> set (fst (snd (chat handbookEnv vacationRequest initialState)))
   \<and> \<not> ragFlag nullFlagRequest
   \<and> pdfText (snd (snd (chat handbookEnv nullFlagRequest initialState))) = None
   \<and> LoadPDF \<notin> set (fst (snd (chat handbookEnv nullFlagRequest initialState)))"
proof -
  let ?D = "''Vacation is 15 days.''"
  let ?out = "chat handbookEnv vacationRequest initialState"
  let ?off = "chat handbookEnv nullFlagRequest initialState"
  have u: "useRAG vacationRequest = None" by (simp add: vacationRequest_def)
  then have f: "ragFlag vacationRequest" by (simp add: ragFlag_def)
  have k: "requestSession vacationRequest \<notin> set objectPrototypeKeys"
    by (simp add: requestSession_def vacationRequest_def objectPrototypeKeys_def)
  have k': "requestSession nullFlagRequest \<notin> set objectPrototypeKeys"
    by (simp add: requestSession_def nullFlagRequest_def vacationRequest_def
                  objectPrototypeKeys_def)
  have nf: "\<not> ragFlag nullFlagRequest" by (simp add: ragFlag_def nullFlagRequest_def)
  have cold: "(pdfText initialState = None \<or> pdfText initialState = Some [])
              \<and> fileExists handbookEnv \<and> readAndParse handbookEnv = Inr ?D"
    by (simp add: initialState_def handbookEnv_def)
  have h0: "history initialState (requestSession vacationRequest) = []"
    by (simp add: history_def initialState_def)
  have m: "message vacationRequest = ''How long is vacation?''" by (simp add: vacationRequest_def)
  have p0: "pdfChunks initialState = []" "pdfText initialState = None"
    by (simp_all add: initialState_def)
  have r: "fst ?out = Json200 ''15 days'' [?D]" by code_simp
  have ci: "chunkInto [] ?D = [?D]" by code_simp
  have c: "?out = (fst ?out, fst (snd ?out), snd (snd ?out))" by simp
  have c': "?off = (fst ?off, fst (snd ?off), snd (snd ?off))" by simp
  note th = useRAG_default[of handbookEnv vacationRequest initialState "fst ?out" "fst (snd ?out)"
      "snd (snd ?out)" ?D]
  from th have e: "chat handbookEnv (vacationRequest\<lparr>useRAG := None\<rparr>) initialState
       = chat handbookEnv (vacationRequest\<lparr>useRAG := Some (JBool True)\<rparr>) initialState" by blast
  from th c k f cold have l: "pdfText (snd (snd ?out)) = Some ?D"
    "pdfChunks (snd (snd ?out)) = chunkInto (pdfChunks initialState) ?D" by blast+
  from th c k f r have "Invoke (systemMessage True [?D]
        # history initialState (requestSession vacationRequest)
        @ [\<lparr>role = User, content = message vacationRequest\<rparr>]) \<in> set (fst (snd ?out))"
    by blast
  then have i: "Invoke [systemMessage True [?D], \<lparr>role = User, content = ''How long is vacation?''\<rparr>]
       \<in> set (fst (snd ?out))" by (simp add: h0 m)
  from useRAG_default[of handbookEnv nullFlagRequest initialState "fst ?off" "fst (snd ?off)"
      "snd (snd ?off)"] c' k' nf
  have o: "pdfText (snd (snd ?off)) = pdfText initialState" "LoadPDF \<notin> set (fst (snd ?off))"
    by blast+
  from u e r l i nf o ci p0 show ?thesis by simp
qed

section \<open>A missing file\<close>

text \<open>
  Claim C10, as stated: with retrieval in effect and the file missing, the handler
  returns an error and never invokes the model. The test for the file comes after the
  test of the cache: once a request has loaded the document, a later request with the
  file gone is answered from the cached chunks, and the model is invoked.
\<close>

theorem cached_document_hides_missing_file:
  "\<not> fileExists missingFileEnv
   \<and> ragFlag vacationRequest
   \<and> fst (chat missingFileEnv vacationRequest oneTurnState)
       = Json200 ''15 days'' [''Vacation is 15 days.'']
   \<and> fst (snd (chat missingFileEnv vacationRequest oneTurnState))
       = [LoadPDF, Retrieve ''How long is vacation?'',
          Invoke
            [systemMessage True [''Vacation is 15 days.''],
             \<lparr>role = User, content = ''How long is vacation?''\<rparr>,
             \<lparr>role = Assistant, content = ''15 days''\<rparr>,
             \<lparr>role = User, content = ''How long is vacation?''\<rparr>],
          SaveContext ''How long is vacation?'' ''15 days'']"
  by code_simp

text \<open>
  Claim C10, amended. For every chat request with retrieval in effect (\<^verbatim>\<open>useRAG\<close> absent or
  truthy), if no document text is cached (\<^verbatim>\<open>pdfText\<close> is \<^verbatim>\<open>null\<close> or empty) and the file does
  not exist, the handler returns the error response and the model is never invoked.
\<close>

theorem missing_file_no_model_call:
  assumes c: "chat env req s = (resp, fx, s')"
    and rf: "ragFlag req"
    and f: "\<not> fileExists env"
    and n: "pdfText s = None \<or> pdfText s = Some []"
  shows "isErrorResponse resp \<and> (\<forall>ms. Invoke ms \<notin> set fx)"
proof -
  have miss: "loadPDF env t = (Inl PdfNotFound, [], t)" if "pdfText t = pdfText s" for t
    using that n f by (auto simp: loadPDF_unfold)
  from c show ?thesis
  proof (cases rule: chat_cases)
    case proto
    then show ?thesis by simp
  next
    case (norag s1)
    with rf show ?thesis by simp
  next
    case (loadfail s1 err lfx)
    from miss[OF getSessionMemory_Some(3)[OF loadfail(3)]] loadfail show ?thesis by simp
  next
    case (retrievefail s1 doc err lfx)
    from miss[OF getSessionMemory_Some(3)[OF retrievefail(3)]] retrievefail show ?thesis by simp
  next
    case (rag s1 s2 doc lfx sources afx)
    from miss[OF getSessionMemory_Some(3)[OF rag(3)]] rag show ?thesis by simp
  qed
qed

theorem missing_file_no_model_call_witness:
  "useRAG vacationRequest = None
   \<and> ragFlag vacationRequest
   \<and> \<not> fileExists missingFileEnv
   \<and> pdfText initialState = None
   \<and> fst (chat missingFileEnv vacationRequest initialState)
       = Json500 ''Model call failed''
           ''Employee handbook PDF not found on the server. Please check the 'data' folder.''
           ''Sorry, I encountered an error. Please try again.''
   \<and> (\<forall>ms. Invoke ms \<notin> set (fst (snd (chat missingFileEnv vacationRequest initialState))))"
proof -
  let ?out = "chat missingFileEnv vacationRequest initialState"
  have u: "useRAG vacationRequest = None" by (simp add: vacationRequest_def)
  then have r: "ragFlag vacationRequest" by (simp add: ragFlag_def)
  have f: "\<not> fileExists missingFileEnv" by (simp add: missingFileEnv_def)
  have n: "pdfText initialState = None" by (simp add: initialState_def)
  have c: "?out = (fst ?out, fst (snd ?out), snd (snd ?out))" by simp
  have e: "fst ?out = Json500 ''Model call failed''
           ''Employee handbook PDF not found on the server. Please check the 'data' folder.''
           ''Sorry, I encountered an error. Please try again.''"
    by code_simp
  from missing_file_no_model_call[OF c r f] n
  have "\<forall>ms. Invoke ms \<notin> set (fst (snd ?out))" by blast
  with u r f n e show ?thesis by blast
qed

text \<open>
  The error for the missing file is thrown in the first step of the request, before any
  \<^verbatim>\<open>await\<close>: whatever other requests are under way, a request that arrives with retrieval in
  effect, no text cached and the file missing is answered at once with the error response,
  and the model is not invoked.
\<close>

lemma missing_file_before_any_await:
  assumes c: "chatStart env req s = (p, fx, s')"
    and rf: "ragFlag req"
    and f: "\<not> fileExists env"
    and n: "pdfText s = None \<or> pdfText s = Some []"
  shows "\<exists>resp. p = Finished resp \<and> isErrorResponse resp \<and> (\<forall>ms. Invoke ms \<notin> set fx)"
  using assms
  by (auto simp: chatStart_def loadPDF_enter_def afterLoad_def getSessionMemory_def
                 errorResponse_def Let_def
           split: prod.splits option.splits if_splits load_step.splits sum.splits)

end
